theory Spec2Isabelle
  imports Main "HOL-Library.Word"
begin

section \<open>JavaScript strings\<close>

text \<open>
  A JavaScript string is a sequence of UTF-16 code units. Literals of the source are
  written with \<open>lit\<close>, which reads each character of an Isabelle string as the code
  unit with the same number.
\<close>

type_synonym jschar = "16 word"
type_synonym jsstring = "jschar list"

definition lit :: "string \<Rightarrow> jsstring" where
  "lit s = map of_char s"

definition LF :: jschar where
  "LF = 0x0A"

definition CR :: jschar where
  "CR = 0x0D"

definition DOT :: jschar where
  "DOT = 0x2E"

definition SLASH :: jschar where
  "SLASH = 0x2F"

text \<open>
  \<open>String.prototype.trim\<close> removes white space and line terminators at both ends:
  TAB, LF, VT, FF, CR, SP, NBSP, the Unicode space separators (U+1680, U+2000 to
  U+200A, U+202F, U+205F, U+3000), LS, PS and the byte order mark.
\<close>

definition isWhiteSpace :: "jschar \<Rightarrow> bool" where
  "isWhiteSpace c \<longleftrightarrow>
     c \<in> set [0x09, 0x0A, 0x0B, 0x0C, 0x0D, 0x20, 0xA0, 0x1680, 0x2028, 0x2029,
               0x202F, 0x205F, 0x3000, 0xFEFF]
     \<or> (0x2000 \<le> c \<and> c \<le> 0x200A)"

definition trim :: "jsstring \<Rightarrow> jsstring" where
  "trim s = rev (dropWhile isWhiteSpace (rev (dropWhile isWhiteSpace s)))"

text \<open>
  \<open>s.split(sep)\<close> for a separator of one code unit: the pieces between the
  separators, in order; never empty (\<open>''''.split(sep)\<close> is one empty piece).
\<close>

fun split_on :: "jschar \<Rightarrow> jsstring \<Rightarrow> jsstring list" where
  "split_on sep [] = [[]]"
| "split_on sep (c # cs) =
     (if c = sep then [] # split_on sep cs
      else (case split_on sep cs of [] \<Rightarrow> [[c]] | l # ls \<Rightarrow> (c # l) # ls))"

text \<open>\<open>lines.join(sep)\<close>.\<close>

fun join :: "jsstring \<Rightarrow> jsstring list \<Rightarrow> jsstring" where
  "join sep [] = []"
| "join sep [l] = l"
| "join sep (l # l' # ls) = l @ sep @ join sep (l' # ls)"

text \<open>\<open>s.replace(/c/g, r)\<close> for one code unit \<open>c\<close>: every occurrence becomes \<open>r\<close>.\<close>

definition replace_all :: "jschar \<Rightarrow> jsstring \<Rightarrow> jsstring \<Rightarrow> jsstring" where
  "replace_all c r s = concat (map (\<lambda>x. if x = c then r else [x]) s)"

definition startsWith :: "jsstring \<Rightarrow> jsstring \<Rightarrow> bool" where
  "startsWith s p \<longleftrightarrow> take (length p) s = p"

text \<open>
  \<open>toLowerCase\<close> on the letters A to Z. Other code units are left as they are: the
  program compares the result only with the words pdf, doc, docx, xls, xlsx, ppt and
  pptx, and no character outside ASCII has one of their letters as its lower case.
\<close>

definition toLowerCase :: "jsstring \<Rightarrow> jsstring" where
  "toLowerCase s = map (\<lambda>c. if 0x41 \<le> c \<and> c \<le> 0x5A then c + 0x20 else c) s"

text \<open>A non-negative integer in a template literal: its decimal digits.\<close>

function decimal :: "nat \<Rightarrow> jsstring" where
  "decimal n = (if n < 10 then [0x30 + of_nat n] else decimal (n div 10) @ [0x30 + of_nat (n mod 10)])"
  by pat_completeness auto
termination
  by (relation "measure id") auto

declare decimal.simps [simp del]

text \<open>\<open>a || b\<close> on strings: the empty string is falsy.\<close>

definition orElse :: "jsstring \<Rightarrow> jsstring \<Rightarrow> jsstring" where
  "orElse a b = (if a = [] then b else a)"

section \<open>Data model (src/App.tsx, lines 11 to 29)\<close>

record ConversionOptions =
  encoding :: jsstring
  lineEnding :: jsstring
  removeEmptyLines :: bool
  trimWhitespace :: bool

record ProcessedFile =
  name :: jsstring
  content :: jsstring
  originalType :: jsstring
  path :: jsstring

record ProcessingStats =
  totalFiles :: nat
  processed :: nat
  failed :: nat

text \<open>The browser's \<open>File\<close> object, as far as the program reads it.\<close>

record File =
  file_name :: jsstring
  file_type :: jsstring
  file_webkitRelativePath :: jsstring
  file_size :: nat
  file_lastModified :: int

section \<open>Text conversion (handleConvert, handleDownload)\<close>

text \<open>
  The conversion that \<open>handleConvert\<close> applies to \<open>inputText\<close> (lines 259 to 273) and
  \<open>handleDownload\<close> to the content of every processed file (lines 283 to 294); the
  two copies are the same statements.
\<close>

definition normalize_text :: "ConversionOptions \<Rightarrow> jsstring \<Rightarrow> jsstring" where
  "normalize_text opts inputText =
     (let converted1 =
            (if trimWhitespace opts
             then join [LF] (map trim (split_on LF inputText))
             else inputText);
          converted2 =
            (if removeEmptyLines opts
             then join [LF] (filter (\<lambda>line. length (trim line) > 0) (split_on LF converted1))
             else converted1)
      in if lineEnding opts = lit ''CRLF'' then replace_all LF [CR, LF] converted2
         else if lineEnding opts = lit ''CR'' then replace_all LF [CR] converted2
         else converted2)"

text \<open>The options the component starts with (lines 98 to 103).\<close>

definition defaultOptions :: ConversionOptions where
  "defaultOptions =
     \<lparr>encoding = lit ''UTF-8'', lineEnding = lit ''LF'',
      removeEmptyLines = False, trimWhitespace = False\<rparr>"

subsection \<open>The conversion as the specification words it\<close>

text \<open>
  The text is cut into lines once; then (1) every line is trimmed when
  \<open>trimWhitespace\<close> is set, (2) every line whose trimmed content is empty is dropped
  when \<open>removeEmptyLines\<close> is set, and (3) the lines are put together again and the
  line terminators rewritten: LF leaves the text as it is, CRLF inserts a carriage
  return before every line feed, CR replaces every line feed with a carriage return.
\<close>

definition trimLines :: "bool \<Rightarrow> jsstring list \<Rightarrow> jsstring list" where
  "trimLines on ls = (if on then map trim ls else ls)"

definition dropEmptyLines :: "bool \<Rightarrow> jsstring list \<Rightarrow> jsstring list" where
  "dropEmptyLines on ls = (if on then filter (\<lambda>l. trim l \<noteq> []) ls else ls)"

fun insertCR :: "jsstring \<Rightarrow> jsstring" where
  "insertCR [] = []"
| "insertCR (c # cs) = (if c = LF then CR # LF # insertCR cs else c # insertCR cs)"

abbreviation (input) toCR :: "jsstring \<Rightarrow> jsstring" where
  "toCR s \<equiv> map (\<lambda>c. if c = LF then CR else c) s"

definition rewriteTerminators :: "jsstring \<Rightarrow> jsstring \<Rightarrow> jsstring" where
  "rewriteTerminators le s =
     (if le = lit ''CRLF'' then insertCR s
      else if le = lit ''CR'' then toCR s
      else s)"

definition convertedLines :: "ConversionOptions \<Rightarrow> jsstring \<Rightarrow> jsstring list" where
  "convertedLines opts s =
     dropEmptyLines (removeEmptyLines opts) (trimLines (trimWhitespace opts) (split_on LF s))"

definition normalize_spec :: "ConversionOptions \<Rightarrow> jsstring \<Rightarrow> jsstring" where
  "normalize_spec opts s = rewriteTerminators (lineEnding opts) (join [LF] (convertedLines opts s))"

text \<open>A string is trimmed when it neither starts nor ends with white space.\<close>

definition trimmed :: "jsstring \<Rightarrow> bool" where
  "trimmed s \<longleftrightarrow> (s = [] \<or> (\<not> isWhiteSpace (hd s) \<and> \<not> isWhiteSpace (last s)))"

section \<open>The collaborators outside the program\<close>

text \<open>
  The program reads a file through the browser (\<open>file.text()\<close>, \<open>file.arrayBuffer()\<close>)
  and through the libraries tesseract.js, pdf.js, mammoth, xlsx and JSZip. What such a
  call yields is an input of the model: either it never settles, or it settles after
  some time (in milliseconds, counted from the call of \<open>processFile\<close>) with the text the
  wrapper builds from the library's answer (the page, sheet and slide headers
  included), or with a thrown value. Of a thrown value that is neither \<open>null\<close> nor
  \<open>undefined\<close> the model keeps the text that \<open>error.message\<close> renders (\<open>Throws\<close>);
  reading \<open>message\<close> of \<open>null\<close> or \<open>undefined\<close> throws in turn, so a rejection with one of
  these two values is an outcome of its own (\<open>ThrowsNullish\<close>).
\<close>

datatype library = FileText | Tesseract | PdfJs | Mammoth | SheetJS | JSZipSlides | ReadBuffer

datatype settled = Text jsstring | Throws jsstring | ThrowsNullish

text \<open>
  The errors the component raises itself: \<open>new Error(message)\<close>, and the \<open>TypeError\<close> of
  reading \<open>message\<close> of \<open>null\<close> or \<open>undefined\<close>, whose text is the engine's.
\<close>

datatype error = Error jsstring | TypeError

datatype completion = Never | After nat settled

record env =
  extraction :: "library \<Rightarrow> File \<Rightarrow> completion"
  toLocaleString :: "int \<Rightarrow> jsstring"
  timerFirst :: "File \<Rightarrow> bool"

section \<open>The component's state and its updates (src/App.tsx, lines 96 to 147)\<close>

text \<open>
  The status line is kept as the template it was built from. The last template of the
  loop also shows a percentage, a floating-point rendering that is left out.
\<close>

datatype status_message =
    NoStatus
  | ScanningFiles
  | ProcessingFile jsstring nat nat
  | ProcessedCount nat nat
  | ProcessingCancelled
  | ErrorProcessingFiles

record AppState =
  inputText :: jsstring
  outputText :: jsstring
  options :: ConversionOptions
  isProcessing :: bool
  processedFiles :: "ProcessedFile list"
  processingStatus :: status_message
  stats :: ProcessingStats
  errorLogs :: "jsstring list"
  consoleLog :: "jsstring list"

definition initialState :: AppState where
  "initialState =
     \<lparr>inputText = [], outputText = [], options = defaultOptions, isProcessing = False,
      processedFiles = [], processingStatus = NoStatus,
      stats = \<lparr>totalFiles = 0, processed = 0, failed = 0\<rparr>,
      errorLogs = [], consoleLog = []\<rparr>"

definition updateStats :: "bool \<Rightarrow> ProcessingStats \<Rightarrow> ProcessingStats" where
  "updateStats success prev =
     prev\<lparr>processed := processed prev + 1,
          failed := failed prev + (if success then 0 else 1)\<rparr>"

definition logMessage :: "jsstring \<Rightarrow> jsstring \<Rightarrow> jsstring" where
  "logMessage fileName message =
     lit ''Error processing '' @ fileName @ lit '': '' @ message @ [LF]"

definition logError :: "jsstring \<Rightarrow> jsstring \<Rightarrow> jsstring list \<Rightarrow> jsstring list" where
  "logError fileName message prevLogs = prevLogs @ [logMessage fileName message]"

text \<open>
  The calls that change what an observer sees, as data: the state setters,
  \<open>updateStats\<close>, \<open>logError\<close> and \<open>console.log\<close>. A run of the program is the list of
  its calls in the order they happen; the state after any prefix of the list is a
  state the component is in at some moment of the run.
\<close>

datatype effect =
    SetIsProcessing bool
  | SetProcessingStatus status_message
  | SetStats ProcessingStats
  | UpdateStats bool
  | LogError jsstring jsstring
  | SetErrorLogs "jsstring list"
  | SetProcessedFiles "ProcessedFile list"
  | SetInputText jsstring
  | ConsoleLog jsstring

fun applyEffect :: "effect \<Rightarrow> AppState \<Rightarrow> AppState" where
  "applyEffect (SetIsProcessing b) st = st\<lparr>isProcessing := b\<rparr>"
| "applyEffect (SetProcessingStatus m) st = st\<lparr>processingStatus := m\<rparr>"
| "applyEffect (SetStats s) st = st\<lparr>stats := s\<rparr>"
| "applyEffect (UpdateStats success) st = st\<lparr>stats := updateStats success (stats st)\<rparr>"
| "applyEffect (LogError fileName message) st =
     st\<lparr>errorLogs := logError fileName message (errorLogs st)\<rparr>"
| "applyEffect (SetErrorLogs logs) st = st\<lparr>errorLogs := logs\<rparr>"
| "applyEffect (SetProcessedFiles fs) st = st\<lparr>processedFiles := fs\<rparr>"
| "applyEffect (SetInputText t) st = st\<lparr>inputText := t\<rparr>"
| "applyEffect (ConsoleLog l) st = st\<lparr>consoleLog := consoleLog st @ [l]\<rparr>"

definition runEffects :: "AppState \<Rightarrow> effect list \<Rightarrow> AppState" where
  "runEffects st effs = foldl (\<lambda>s e. applyEffect e s) st effs"

definition handleConvert :: "AppState \<Rightarrow> AppState" where
  "handleConvert st = st\<lparr>outputText := normalize_text (options st) (inputText st)\<rparr>"

text \<open>
  \<open>handleDownload\<close> (lines 278 to 327), up to the bytes handed to the browser: with
  more than one processed file, the calls \<open>zip.file(fileName, converted)\<close> in order;
  otherwise the text of the single download. \<open>path.replace(/\.[^/.]+$/, '')\<close> removes
  a last dot together with what follows it, when that is not empty and holds no slash.
\<close>

datatype download = ZipArchive "(jsstring \<times> jsstring) list" | TextFile jsstring

definition stripExtension :: "jsstring \<Rightarrow> jsstring" where
  "stripExtension p =
     (let suffix = takeWhile (\<lambda>c. c \<noteq> SLASH \<and> c \<noteq> DOT) (rev p);
          rest = dropWhile (\<lambda>c. c \<noteq> SLASH \<and> c \<noteq> DOT) (rev p)
      in if suffix \<noteq> [] \<and> rest \<noteq> [] \<and> hd rest = DOT then rev (tl rest) else p)"

definition handleDownload :: "AppState \<Rightarrow> download" where
  "handleDownload st =
     (if length (processedFiles st) > 1
      then ZipArchive (map (\<lambda>file. (stripExtension (path file) @ lit ''.txt'',
                                    normalize_text (options st) (content file)))
                        (processedFiles st))
      else TextFile (outputText st))"

section \<open>processFile (src/App.tsx, lines 31 to 93 and 149 to 193)\<close>

text \<open>\<open>file.name.split('.').pop()?.toLowerCase()\<close>\<close>

definition extensionOf :: "jsstring \<Rightarrow> jsstring option" where
  "extensionOf fileName =
     (case rev (split_on DOT fileName) of [] \<Rightarrow> None | x # _ \<Rightarrow> Some (toLowerCase x))"

text \<open>An extension inside a template literal, and \<open>extension || d\<close>.\<close>

definition render :: "jsstring option \<Rightarrow> jsstring" where
  "render extension = (case extension of None \<Rightarrow> lit ''undefined'' | Some e \<Rightarrow> e)"

definition extensionOr :: "jsstring option \<Rightarrow> jsstring \<Rightarrow> jsstring" where
  "extensionOr extension d = (case extension of None \<Rightarrow> d | Some e \<Rightarrow> orElse e d)"

text \<open>The conditions of the \<open>if\<close> chain of \<open>processFile\<close> (lines 159 to 174), in order.\<close>

datatype branch = TextBranch | ImageBranch | PdfBranch | OfficeBranch | UnsupportedBranch

definition classify :: "File \<Rightarrow> branch" where
  "classify file =
     (let extension = extensionOf (file_name file) in
      if startsWith (file_type file) (lit ''text/'') then TextBranch
      else if startsWith (file_type file) (lit ''image/'') then ImageBranch
      else if file_type file = lit ''application/pdf'' \<or> extension = Some (lit ''pdf'')
        then PdfBranch
      else if extensionOr extension []
                \<in> set (map lit [''doc'', ''docx'', ''xls'', ''xlsx'', ''ppt'', ''pptx''])
        then OfficeBranch
      else UnsupportedBranch)"

text \<open>The \<open>switch\<close> of \<open>processOfficeFile\<close> (lines 35 to 92): the library each case calls.\<close>

definition officeLibrary :: "jsstring option \<Rightarrow> library option" where
  "officeLibrary extension =
     (if extension = Some (lit ''doc'') \<or> extension = Some (lit ''docx'') then Some Mammoth
      else if extension = Some (lit ''xls'') \<or> extension = Some (lit ''xlsx'') then Some SheetJS
      else if extension = Some (lit ''ppt'') \<or> extension = Some (lit ''pptx'')
        then Some JSZipSlides
      else None)"

definition processOfficeFile :: "env \<Rightarrow> File \<Rightarrow> completion" where
  "processOfficeFile env file =
     (let extension = extensionOf (file_name file) in
      case officeLibrary extension of
        Some l \<Rightarrow> extraction env l file
      | None \<Rightarrow>
          (case extraction env ReadBuffer file of
             Never \<Rightarrow> Never
           | After t (Throws message) \<Rightarrow> After t (Throws message)
           | After t ThrowsNullish \<Rightarrow> After t ThrowsNullish
           | After t (Text _) \<Rightarrow>
               After t (Throws (lit ''Unsupported office file extension: '' @ render extension))))"

definition processImageFile :: "env \<Rightarrow> File \<Rightarrow> completion" where
  "processImageFile env file = extraction env Tesseract file"

text \<open>
  A call of an async function: the effects it has before its first \<open>await\<close>, in the
  caller's turn, and, if the promise it returns settles, the time at which it does, the
  effects of the continuation and what the promise settles with: the value it is
  fulfilled with (\<open>Inr\<close>) or the error it is rejected with (\<open>Inl\<close>).
\<close>

record 'a task =
  sync :: "effect list"
  settle :: "(nat \<times> effect list \<times> 'a) option"

text \<open>The object \<open>processFile\<close> returns for the extracted text (lines 181 to 186).\<close>

definition processedFile :: "env \<Rightarrow> File \<Rightarrow> jsstring \<Rightarrow> ProcessedFile" where
  "processedFile env file content' =
     (let extension = extensionOf (file_name file);
          filePath = orElse (file_webkitRelativePath file) (file_name file);
          fileSize = file_size file;
          fileDate = (if file_lastModified file = 0 then lit ''N/A''
                      else toLocaleString env (file_lastModified file))
      in \<lparr>name = file_name file,
          content = lit ''File Information:'' @ [LF] @ lit ''Path: '' @ filePath
            @ [LF] @ lit ''Name: '' @ file_name file
            @ [LF] @ lit ''Date: '' @ fileDate
            @ [LF] @ lit ''Size: '' @ decimal fileSize @ lit '' bytes''
            @ [LF, LF] @ lit ''Content:'' @ [LF] @ content',
          originalType = extensionOr extension (lit ''unknown''),
          path = filePath\<rparr>)"

text \<open>
  What follows the \<open>await\<close> of a branch: \<open>updateStats(true)\<close> and the object when the
  awaited call yields text, the \<open>catch\<close> block (lines 187 to 192) when it throws. The
  block calls \<open>updateStats(false)\<close> and then \<open>logError\<close>, which builds its line from
  \<open>error.message\<close> before it calls \<open>setErrorLogs\<close> (lines 144 to 147): when the thrown value
  is \<open>null\<close> or \<open>undefined\<close> that read throws a \<open>TypeError\<close> inside the \<open>catch\<close> block, nothing
  is logged, and the promise of \<open>processFile\<close> is rejected.
\<close>

definition afterAwait ::
  "env \<Rightarrow> File \<Rightarrow> completion
     \<Rightarrow> (nat \<times> effect list \<times> (error + ProcessedFile option)) option" where
  "afterAwait env file c =
     (case c of
        Never \<Rightarrow> None
      | After t (Throws message) \<Rightarrow>
          Some (t, [UpdateStats False, LogError (file_name file) message], Inr None)
      | After t ThrowsNullish \<Rightarrow>
          Some (t, [UpdateStats False], Inl TypeError)
      | After t (Text content') \<Rightarrow>
          Some (t, [UpdateStats True], Inr (Some (processedFile env file content'))))"

definition processFile :: "env \<Rightarrow> File \<Rightarrow> (error + ProcessedFile option) task" where
  "processFile env file =
     (let extension = extensionOf (file_name file);
          started = [ConsoleLog (lit ''Processing file: '' @ file_name file
                       @ lit '', extension: '' @ render extension)]
      in case classify file of
           TextBranch \<Rightarrow>
             \<lparr>sync = started, settle = afterAwait env file (extraction env FileText file)\<rparr>
         | ImageBranch \<Rightarrow>
             \<lparr>sync = started, settle = afterAwait env file (processImageFile env file)\<rparr>
         | PdfBranch \<Rightarrow>
             \<lparr>sync = started, settle = afterAwait env file (extraction env PdfJs file)\<rparr>
         | OfficeBranch \<Rightarrow>
             \<lparr>sync = started, settle = afterAwait env file (processOfficeFile env file)\<rparr>
         | UnsupportedBranch \<Rightarrow>
             \<lparr>sync = started @ [UpdateStats False,
                       LogError (file_name file) (lit ''Unsupported file type'')],
              settle = Some (0, [], Inr None)\<rparr>)"

text \<open>The library \<open>processFile\<close> hands the file to, if any.\<close>

definition route :: "File \<Rightarrow> library option" where
  "route file =
     (case classify file of
        TextBranch \<Rightarrow> Some FileText
      | ImageBranch \<Rightarrow> Some Tesseract
      | PdfBranch \<Rightarrow> Some PdfJs
      | OfficeBranch \<Rightarrow> officeLibrary (extensionOf (file_name file))
      | UnsupportedBranch \<Rightarrow> None)"

text \<open>
  The value a call of \<open>processFile\<close> settles with; \<open>None\<close> is JavaScript's \<open>null\<close>, and
  stands in for a call that has no value because it never settles or is rejected.
\<close>

definition fileResult :: "env \<Rightarrow> File \<Rightarrow> ProcessedFile option" where
  "fileResult env file =
     (case settle (processFile env file) of Some (t, effs, Inr v) \<Rightarrow> v | _ \<Rightarrow> None)"

text \<open>
  The call settles with a value, an object or \<open>null\<close>: its promise is neither pending
  for ever nor rejected.
\<close>

definition settles :: "env \<Rightarrow> File \<Rightarrow> bool" where
  "settles env file \<longleftrightarrow>
     (case settle (processFile env file) of Some (t, effs, Inr v) \<Rightarrow> True | _ \<Rightarrow> False)"

text \<open>The promise of the call is rejected.\<close>

definition rejects :: "env \<Rightarrow> File \<Rightarrow> bool" where
  "rejects env file \<longleftrightarrow>
     (case settle (processFile env file) of Some (t, effs, Inl e) \<Rightarrow> True | _ \<Rightarrow> False)"

section \<open>handleFolderUpload (src/App.tsx, lines 195 to 256)\<close>

definition batchSize :: nat where
  "batchSize = 5"

text \<open>\<open>fileArray.slice(i, j)\<close>\<close>

definition slice_files :: "'a list \<Rightarrow> nat \<Rightarrow> nat \<Rightarrow> 'a list" where
  "slice_files xs i j = take (j - i) (drop i xs)"

text \<open>
  One group (lines 219 to 225). The callback of \<open>batch.map\<close> runs for every file in
  order: it sets the status line and calls \<open>processFile\<close>, which runs up to its first
  \<open>await\<close>. The continuations of the calls that settle run later, in the order in which
  the calls settle (for calls to which the environment gives the same time the model
  takes the order in which they were made). \<open>Promise.all\<close> is rejected as soon as one
  call is rejected, with the error of that call; the calls of the group that settle
  later still run their continuations, after the \<open>await\<close> has thrown. With no call
  rejected, \<open>Promise.all\<close> resolves, with the values in the order of the batch, once
  every call has settled, and stays pending if one call never settles.
\<close>

datatype awaited = Pending | Rejected error "effect list" | Resolved "(ProcessedFile option) list"

text \<open>
  The first rejection in a list of settlements in the order in which they happen: the
  effects up to it, its own included, the error, and the effects of the settlements
  after it.
\<close>

fun firstRejection ::
  "(nat \<times> effect list \<times> (error + 'a)) list \<Rightarrow> (effect list \<times> error \<times> effect list) option" where
  "firstRejection [] = None"
| "firstRejection ((t, effs, Inl e) # later) =
     Some (effs, e, concat (map (\<lambda>(t, effs, v). effs) later))"
| "firstRejection ((t, effs, Inr v) # later) =
     map_option (\<lambda>(before, e, after). (effs @ before, e, after)) (firstRejection later)"

definition batchCalls :: "env \<Rightarrow> File list \<Rightarrow> nat \<Rightarrow> nat \<Rightarrow> effect list" where
  "batchCalls env batch i n =
     concat (map (\<lambda>file.
               SetProcessingStatus (ProcessingFile (file_name file) (i + 1) n)
                 # sync (processFile env file)) batch)"

definition batchContinuations :: "env \<Rightarrow> File list \<Rightarrow> effect list" where
  "batchContinuations env batch =
     concat (map (\<lambda>(t, effs, v). effs)
               (sort_key (\<lambda>(t, effs, v). t)
                  (List.map_filter settle (map (processFile env) batch))))"

definition runBatch :: "env \<Rightarrow> File list \<Rightarrow> nat \<Rightarrow> nat \<Rightarrow> effect list \<times> awaited" where
  "runBatch env batch i n =
     (let tasks = map (processFile env) batch;
          settlements = sort_key (\<lambda>(t, effs, v). t) (List.map_filter settle tasks)
      in case firstRejection settlements of
           Some (before, e, late) \<Rightarrow> (batchCalls env batch i n @ before, Rejected e late)
         | None \<Rightarrow>
             (batchCalls env batch i n @ batchContinuations env batch,
              if list_all (\<lambda>k. settle k \<noteq> None) tasks
              then Resolved (map (fileResult env) batch) else Pending))"

text \<open>
  \<open>abortControllerRef\<close> is shared by every call of \<open>handleFolderUpload\<close> and by
  \<open>handleCancel\<close>; its value is \<open>null\<close> (\<open>None\<close>) or a controller, of which the model keeps
  whether its signal is aborted. While a run awaits a group, three things can happen to
  it: \<open>handleCancel\<close> runs (lines 252 to 256) and aborts the controller, if there is one;
  another call of \<open>handleFolderUpload\<close> starts (lines 199 to 202), aborts the controller
  and puts a new one in its place; the \<open>finally\<close> block of another call runs (line 248)
  and sets the reference to \<open>null\<close>.
\<close>

datatype event = CancelClicked | UploadStarted | RunEnded

fun handleEvent :: "event \<Rightarrow> bool option \<Rightarrow> bool option" where
  "handleEvent CancelClicked ref = map_option (\<lambda>signal. True) ref"
| "handleEvent UploadStarted ref = Some False"
| "handleEvent RunEnded ref = None"

text \<open>
  What happens while the groups are awaited is an input of the model: \<open>cancel g\<close> lists
  the events during the group with number \<open>g\<close> (counted from 0), in order. The run puts
  a new controller in the reference before its loop starts, and nothing can happen
  between that and the first test. \<open>controllerAt cancel g\<close> is the reference after the
  first \<open>g\<close> groups; the test at the top of the iteration with index \<open>i\<close> (line 215) reads
  \<open>abortControllerRef.current?.signal.aborted\<close>:
\<close>

definition controllerAt :: "(nat \<Rightarrow> event list) \<Rightarrow> nat \<Rightarrow> bool option" where
  "controllerAt cancel g =
     foldl (\<lambda>ref e. handleEvent e ref) (Some False) (concat (map cancel [0..<g]))"

definition aborted :: "(nat \<Rightarrow> event list) \<Rightarrow> nat \<Rightarrow> bool" where
  "aborted cancel i \<longleftrightarrow> controllerAt cancel (i div batchSize) = Some True"

text \<open>Nothing happens to the reference; the user clicks Cancel once, during group \<open>g\<close>.\<close>

definition noEvents :: "nat \<Rightarrow> event list" where
  "noEvents g = []"

definition cancelDuring :: "nat \<Rightarrow> nat \<Rightarrow> event list" where
  "cancelDuring g h = (if h = g then [CancelClicked] else [])"

text \<open>
  During the first group another upload starts and comes to its end; during the first
  group the user clicks Cancel and then selects other files.
\<close>

definition otherUpload :: "nat \<Rightarrow> event list" where
  "otherUpload g = (if g = 0 then [UploadStarted, RunEnded] else [])"

definition cancelThenUpload :: "nat \<Rightarrow> event list" where
  "cancelThenUpload g = (if g = 0 then [CancelClicked, UploadStarted] else [])"

text \<open>
  How the \<open>try\<close> block ends: it runs to its end, the test of the signal throws the
  \<open>Processing cancelled\<close> error, the \<open>await\<close> of a group throws the error \<open>Promise.all\<close> was
  rejected with (together with the calls still to come from the calls of that group
  that settle later), or the \<open>await\<close> of a group never resumes.
\<close>

datatype ending = Completed | CancelledRun | Failed error "effect list" | NeverResumes

definition combinedText :: "ProcessedFile list \<Rightarrow> jsstring" where
  "combinedText processedResults =
     join [LF] (map (\<lambda>file. lit ''=== '' @ path file @ lit '' ==='' @ [LF] @ content file @ [LF])
                 processedResults)"

text \<open>The \<open>for\<close> loop with what follows it in the \<open>try\<close> block (lines 214 to 238).\<close>

function handleFolderUpload_loop ::
  "env \<Rightarrow> (nat \<Rightarrow> event list) \<Rightarrow> File list \<Rightarrow> nat \<Rightarrow> ProcessedFile list
     \<Rightarrow> effect list \<times> ending" where
  "handleFolderUpload_loop env cancel files i processedResults =
     (if i < length files then
        (if aborted cancel i then ([], CancelledRun)
         else
           (let batch = slice_files files i (i + batchSize) in
            case runBatch env batch i (length files) of
              (effs, Pending) \<Rightarrow> (effs, NeverResumes)
            | (effs, Rejected e late) \<Rightarrow> (effs, Failed e late)
            | (effs, Resolved results) \<Rightarrow>
                (let validResults = List.map_filter id results;
                     processedResults' = processedResults @ validResults;
                     (rest, e) = handleFolderUpload_loop env cancel files (i + batchSize)
                                   processedResults'
                 in (effs @ [SetProcessedFiles processedResults',
                             SetProcessingStatus
                               (ProcessedCount (i + length batch) (length files))] @ rest,
                     e))))
      else ([SetInputText (combinedText processedResults)], Completed))"
  by pat_completeness auto
termination
  by (relation "measure (\<lambda>(env, cancel, files, i, acc). length files - i)")
     (auto simp: batchSize_def)

declare handleFolderUpload_loop.simps [simp del]

text \<open>
  The \<open>catch\<close> and \<open>finally\<close> blocks (lines 239 to 249), by the way the \<open>try\<close> block ended.
  The \<open>catch\<close> block tells the cancellation from any other error by
  \<open>error.message === 'Processing cancelled'\<close>. After a rejected group the calls still to
  come from that group follow, whenever their calls settle.
\<close>

definition runEnd :: "ending \<Rightarrow> effect list" where
  "runEnd e =
     (case e of
        Completed \<Rightarrow> [SetIsProcessing False]
      | CancelledRun \<Rightarrow> [SetProcessingStatus ProcessingCancelled, SetIsProcessing False]
      | Failed error late \<Rightarrow>
          [SetProcessingStatus (if error = Error (lit ''Processing cancelled'')
                                then ProcessingCancelled else ErrorProcessingFiles),
           SetIsProcessing False] @ late
      | NeverResumes \<Rightarrow> [])"

text \<open>
  The calls of one run, in order, and how its \<open>try\<close> block ended. The state is shared
  with every other run: the calls of a run that overlaps this one are not in the list.
\<close>

definition handleFolderUpload ::
  "env \<Rightarrow> (nat \<Rightarrow> event list) \<Rightarrow> File list \<Rightarrow> effect list \<times> ending" where
  "handleFolderUpload env cancel files =
     (if files = [] then ([], Completed)
      else
        (case handleFolderUpload_loop env cancel files 0 [] of
           (body, e) \<Rightarrow>
             ([SetIsProcessing True,
               SetProcessingStatus ScanningFiles,
               SetStats \<lparr>totalFiles = length files, processed = 0, failed = 0\<rparr>,
               SetErrorLogs []]
              @ body @ runEnd e,
              e)))"

text \<open>The processed files of a list of input files: the values that are not \<open>null\<close>.\<close>

definition survivors :: "env \<Rightarrow> File list \<Rightarrow> ProcessedFile list" where
  "survivors env files = List.map_filter (fileResult env) files"

text \<open>The line \<open>processFile\<close> writes to the console when it is called.\<close>

definition startLine :: "File \<Rightarrow> jsstring" where
  "startLine file =
     lit ''Processing file: '' @ file_name file @ lit '', extension: ''
       @ render (extensionOf (file_name file))"

text \<open>What a list of calls writes to the console, the values it sets
  \<open>processedFiles\<close> and the status line to, and the lines it appends to the log.\<close>

definition consoleLines :: "effect list \<Rightarrow> jsstring list" where
  "consoleLines effs = List.map_filter (\<lambda>e. case e of ConsoleLog l \<Rightarrow> Some l | _ \<Rightarrow> None) effs"

definition processedFilesSet :: "effect list \<Rightarrow> ProcessedFile list list" where
  "processedFilesSet effs =
     List.map_filter (\<lambda>e. case e of SetProcessedFiles fs \<Rightarrow> Some fs | _ \<Rightarrow> None) effs"

definition statusesSet :: "effect list \<Rightarrow> status_message list" where
  "statusesSet effs =
     List.map_filter (\<lambda>e. case e of SetProcessingStatus m \<Rightarrow> Some m | _ \<Rightarrow> None) effs"

definition loggedErrors :: "effect list \<Rightarrow> jsstring list" where
  "loggedErrors effs =
     List.map_filter (\<lambda>e. case e of LogError n m \<Rightarrow> Some (logMessage n m) | _ \<Rightarrow> None) effs"

text \<open>The calls that give the counters or the log a new value, whatever they held.\<close>

fun resets :: "effect \<Rightarrow> bool" where
  "resets (SetStats s) = True"
| "resets (SetErrorLogs ls) = True"
| "resets e = False"

text \<open>The calls a continuation of \<open>processFile\<close> makes.\<close>

fun outcomeEffect :: "effect \<Rightarrow> bool" where
  "outcomeEffect (UpdateStats b) = True"
| "outcomeEffect (LogError n m) = True"
| "outcomeEffect e = False"

definition continuation :: "'a task \<Rightarrow> effect list" where
  "continuation k = (case settle k of None \<Rightarrow> [] | Some (t, effs, v) \<Rightarrow> effs)"

text \<open>All the calls one call of \<open>processFile\<close> makes.\<close>

definition fileEffects :: "env \<Rightarrow> File \<Rightarrow> effect list" where
  "fileEffects env file = sync (processFile env file) @ continuation (processFile env file)"

text \<open>The counters after the first \<open>k\<close> calls of a run that starts in the state \<open>st\<close>.\<close>

definition statsAt :: "AppState \<Rightarrow> effect list \<Rightarrow> nat \<Rightarrow> ProcessingStats" where
  "statsAt st effs k = stats (runEffects st (take k effs))"

text \<open>
  The state is shared by all runs. When another call of \<open>handleFolderUpload\<close> is made
  while a run awaits a group, and that call is over before the next call of the group
  settles, the calls follow each other like this: the first \<open>k\<close> calls of the run, the
  calls of the other run, the remaining calls of the run.
\<close>

definition overlapped :: "effect list \<Rightarrow> nat \<Rightarrow> effect list \<Rightarrow> effect list" where
  "overlapped run k other = take k run @ other @ drop k run"

section \<open>The variant with a time limit (src/unnamed/part_001)\<close>

text \<open>
  The repository holds a second version of the component. Its \<open>processFile\<close> routes on
  the declared media type alone, \<open>processFileWithTimeout\<close> races it against a timer, and
  the loop of its \<open>handleFolderUpload\<close> never reads the abort signal. It is modelled by
  what its promises settle with and when, and by the value of \<open>processedFiles\<close>; its
  counters and its log are left out (a \<open>processFile\<close> that settles after its timer has
  fired still updates them, at a time no statement below depends on).
\<close>

text \<open>The \<open>if\<close> chain of lines 111 to 149, a function of \<open>file.type\<close>.\<close>

definition routeByType :: "jsstring \<Rightarrow> library option" where
  "routeByType fileType =
     (if startsWith fileType (lit ''text/'') then Some FileText
      else if startsWith fileType (lit ''image/'') then Some Tesseract
      else if fileType = lit ''application/pdf'' then Some PdfJs
      else if fileType = lit ''application/vnd.openxmlformats-officedocument.wordprocessingml.document''
              \<or> fileType = lit ''application/msword''
              \<or> fileType = lit ''application/vnd.ms-word.document.macroEnabled.12''
        then Some Mammoth
      else if fileType = lit ''application/vnd.openxmlformats-officedocument.spreadsheetml.sheet''
              \<or> fileType = lit ''application/vnd.ms-excel''
              \<or> fileType = lit ''application/vnd.ms-excel.sheet.macroEnabled.12''
        then Some SheetJS
      else if fileType = lit ''application/vnd.openxmlformats-officedocument.presentationml.presentation''
              \<or> fileType = lit ''application/vnd.ms-powerpoint''
              \<or> fileType = lit ''application/vnd.ms-powerpoint.presentation.macroEnabled.12''
        then Some JSZipSlides
      else if fileType = lit ''application/vnd.lotus-freelance''
              \<or> fileType = lit ''application/rtf''
        then Some Mammoth
      else None)"

definition processedFile_part001 :: "env \<Rightarrow> File \<Rightarrow> jsstring \<Rightarrow> ProcessedFile" where
  "processedFile_part001 env file content' =
     (let fileType = file_type file;
          filePath = orElse (file_webkitRelativePath file) (file_name file);
          fileSize = file_size file;
          fileDate = (if file_lastModified file = 0 then lit ''N/A''
                      else toLocaleString env (file_lastModified file))
      in \<lparr>name = file_name file,
          content = lit ''Informa'' @ [0xE7, 0xF5] @ lit ''es do Arquivo Original:'' @ [LF]
            @ lit ''Caminho: '' @ filePath
            @ [LF] @ lit ''Nome: '' @ file_name file
            @ [LF] @ lit ''Data: '' @ fileDate
            @ [LF] @ lit ''Tamanho: '' @ decimal fileSize @ lit '' bytes''
            @ [LF, LF] @ content',
          originalType = fileType,
          path = filePath\<rparr>)"

text \<open>
  \<open>processFile\<close> of this version: when the promise settles, if it does, and what with.
  The \<open>catch\<close> block (lines 158 to 163) returns \<open>null\<close>, unless the thrown value is \<open>null\<close> or
  \<open>undefined\<close>: then its \<open>logError\<close> throws a \<open>TypeError\<close> and the promise is rejected.
\<close>

definition processFile_part001 ::
  "env \<Rightarrow> File \<Rightarrow> (nat \<times> (error + ProcessedFile option)) option" where
  "processFile_part001 env file =
     (case routeByType (file_type file) of
        None \<Rightarrow> Some (0, Inr None)
      | Some l \<Rightarrow>
          (case extraction env l file of
             Never \<Rightarrow> None
           | After t (Throws message) \<Rightarrow> Some (t, Inr None)
           | After t ThrowsNullish \<Rightarrow> Some (t, Inl TypeError)
           | After t (Text content') \<Rightarrow>
               Some (t, Inr (Some (processedFile_part001 env file content')))))"

text \<open>
  \<open>processFileWithTimeout\<close> (lines 166 to 180): the time at which the promise settles
  and what with, \<open>Inl\<close> the error it is rejected with. The promise takes the outcome of
  whichever comes first, the timer or \<open>processFile\<close>, whose value and whose rejection are
  both passed on; when both fall on the same millisecond the environment says which
  (\<open>timerFirst\<close>).
\<close>

definition processFileWithTimeout ::
  "env \<Rightarrow> File \<Rightarrow> nat \<Rightarrow> nat \<times> (error + ProcessedFile option)" where
  "processFileWithTimeout env file timeout =
     (case processFile_part001 env file of
        None \<Rightarrow> (timeout, Inl (Error (lit ''File processing timed out'')))
      | Some (t, result) \<Rightarrow>
          if t < timeout \<or> (t = timeout \<and> \<not> timerFirst env file) then (t, result)
          else (timeout, Inl (Error (lit ''File processing timed out''))))"

text \<open>
  One element of the array handed to \<open>Promise.all\<close> (lines 206 to 211): the \<open>catch\<close>
  turns a rejection into \<open>null\<close>. Both errors it can receive have a \<open>message\<close>, so its
  \<open>logError\<close> does not throw and the element is never rejected.
\<close>

definition guarded :: "env \<Rightarrow> File \<Rightarrow> nat \<times> ProcessedFile option" where
  "guarded env file =
     (case processFileWithTimeout env file 30000 of
        (t, Inl error) \<Rightarrow> (t, None)
      | (t, Inr result) \<Rightarrow> (t, result))"

text \<open>
  The loop (lines 203 to 215), with the clock: \<open>now\<close> is the time at which the group
  starts, and \<open>Promise.all\<close> resolves when the last of its promises has settled. The
  result is the time at which the loop ends and the value of \<open>processedFiles\<close>. This
  version too creates the controller (lines 188 to 192) and has \<open>handleCancel\<close> abort it
  (lines 225 to 229), but nothing in the loop reads the signal: what happens to the
  reference while the groups are awaited, \<open>cancel\<close>, is an input the loop never looks at.
\<close>

function handleFolderUpload_part001_loop ::
  "env \<Rightarrow> (nat \<Rightarrow> event list) \<Rightarrow> File list \<Rightarrow> nat \<Rightarrow> nat \<Rightarrow> ProcessedFile list
     \<Rightarrow> nat \<times> ProcessedFile list" where
  "handleFolderUpload_part001_loop env cancel files i now processedResults =
     (if i < length files then
        (let batch = slice_files files i (i + batchSize);
             results = map (guarded env) batch;
             resolved = now + fold max (map fst results) 0;
             processedResults' = processedResults @ List.map_filter snd results
         in handleFolderUpload_part001_loop env cancel files (i + batchSize) resolved
              processedResults')
      else (now, processedResults))"
  by pat_completeness auto
termination
  by (relation "measure (\<lambda>(env, cancel, files, i, now, acc). length files - i)")
     (auto simp: batchSize_def)

declare handleFolderUpload_part001_loop.simps [simp del]

text \<open>\<open>handleFolderUpload\<close> of this version; \<open>previous\<close> is \<open>processedFiles\<close> before the call.\<close>

definition handleFolderUpload_part001 ::
  "env \<Rightarrow> (nat \<Rightarrow> event list) \<Rightarrow> File list \<Rightarrow> ProcessedFile list
     \<Rightarrow> nat \<times> ProcessedFile list" where
  "handleFolderUpload_part001 env cancel files previous =
     (if files = [] then (0, previous)
      else handleFolderUpload_part001_loop env cancel files 0 0 [])"

text \<open>The processed files of a list of input files in this version.\<close>

definition survivors_part001 :: "env \<Rightarrow> File list \<Rightarrow> ProcessedFile list" where
  "survivors_part001 env files = List.map_filter (\<lambda>file. snd (guarded env file)) files"

section \<open>The classifier as the specification words it\<close>

text \<open>
  The extension part of the routing of src/App.tsx: \<open>pdf\<close>, then the Office
  extensions.
\<close>

definition routeByExtension :: "jsstring option \<Rightarrow> library option" where
  "routeByExtension extension =
     (if extension = Some (lit ''pdf'') then Some PdfJs else officeLibrary extension)"

text \<open>
  The tie-break as stated: the declared media type decides whenever it is one of the
  recognised values (the media types the repository lists are those of
  \<open>routeByType\<close>), the extension decides otherwise.
\<close>

definition mediaTypeFirst :: "File \<Rightarrow> library option" where
  "mediaTypeFirst file =
     (case routeByType (file_type file) of
        Some l \<Rightarrow> Some l
      | None \<Rightarrow> routeByExtension (extensionOf (file_name file)))"

section \<open>Example inputs\<close>

text \<open>
  Text files of ten bytes; an environment in which reading B.txt fails after 7 ms,
  stuck.txt is never read to the end, and every other read yields hello after as
  many milliseconds as the file has bytes.
\<close>

definition textFile :: "string \<Rightarrow> File" where
  "textFile n =
     \<lparr>file_name = lit n, file_type = lit ''text/plain'', file_webkitRelativePath = [],
      file_size = 10, file_lastModified = 0\<rparr>"

definition exampleEnv :: env where
  "exampleEnv =
     \<lparr>extraction = (\<lambda>l f. if file_name f = lit ''B.txt'' then After 7 (Throws (lit ''unreadable''))
                          else if file_name f = lit ''stuck.txt'' then Never
                          else After (file_size f) (Text (lit ''hello''))),
      toLocaleString = (\<lambda>t. lit ''1/1/2024, 12:00:00 AM''),
      timerFirst = (\<lambda>f. False)\<rparr>"

text \<open>The same environment, except that reading C.txt is rejected with \<open>null\<close> after 3 ms.\<close>

definition nullEnv :: env where
  "nullEnv =
     exampleEnv\<lparr>extraction := (\<lambda>l f. if file_name f = lit ''C.txt'' then After 3 ThrowsNullish
                                     else extraction exampleEnv l f)\<rparr>"

definition notes_xyz :: File where
  "notes_xyz =
     \<lparr>file_name = lit ''notes.xyz'', file_type = [], file_webkitRelativePath = [],
      file_size = 3, file_lastModified = 0\<rparr>"

definition elevenFiles :: "File list" where
  "elevenFiles =
     map textFile [''A.txt'', ''B.txt'', ''C.txt'', ''D.txt'', ''E.txt'', ''F.txt'', ''G.txt'',
                   ''H.txt'', ''I.txt'', ''J.txt'', ''K.txt'']"

definition threeFiles :: "File list" where
  "threeFiles = map textFile [''A.txt'', ''B.txt'', ''C.txt'']"

definition sixFiles :: "File list" where
  "sixFiles = map textFile [''A.txt'', ''B.txt'', ''C.txt'', ''D.txt'', ''E.txt'', ''F.txt'']"

definition scan_pdf :: File where
  "scan_pdf = \<lparr>file_name = lit ''scan.pdf'', file_type = lit ''image/png'',
     file_webkitRelativePath = [], file_size = 1, file_lastModified = 0\<rparr>"

definition report_xlsx :: File where
  "report_xlsx = \<lparr>file_name = lit ''report.xlsx'', file_type = lit ''application/msword'',
     file_webkitRelativePath = [], file_size = 1, file_lastModified = 0\<rparr>"

text \<open>A plain-text file for which the browser declares no media type.\<close>

definition a_txt :: File where
  "a_txt = \<lparr>file_name = lit ''a.txt'', file_type = [], file_webkitRelativePath = [],
     file_size = 5, file_lastModified = 0\<rparr>"

section \<open>Strings: lemmas\<close>

lemma split_on_not_Nil [simp]: "split_on sep s \<noteq> []"
  by (induction s) (auto split: list.splits)

lemma split_on_sep_free: "l \<in> set (split_on sep s) \<Longrightarrow> sep \<notin> set l"
  by (induction s arbitrary: l) (auto split: list.splits if_splits)

lemma join_split_on [simp]: "join [sep] (split_on sep s) = s"
proof (induction s)
  case Nil
  show ?case by simp
next
  case (Cons c cs)
  obtain l ls where sp: "split_on sep cs = l # ls"
    by (cases "split_on sep cs") auto
  show ?case
  proof (cases "c = sep")
    case True
    with Cons sp show ?thesis by simp
  next
    case False
    with Cons sp show ?thesis by (cases ls) auto
  qed
qed

lemma split_on_sep_free_line: "sep \<notin> set l \<Longrightarrow> split_on sep l = [l]"
  by (induction l) auto

lemma split_on_append_sep:
  "sep \<notin> set l \<Longrightarrow> split_on sep (l @ sep # s) = l # split_on sep s"
  by (induction l) auto

lemma split_on_join:
  "ls \<noteq> [] \<Longrightarrow> (\<forall>l \<in> set ls. sep \<notin> set l) \<Longrightarrow> split_on sep (join [sep] ls) = ls"
proof (induction ls)
  case Nil
  then show ?case by simp
next
  case (Cons l ls)
  show ?case
  proof (cases ls)
    case Nil
    with Cons.prems show ?thesis by (simp add: split_on_sep_free_line)
  next
    case (Cons l' ls')
    with Cons.IH Cons.prems show ?thesis by (simp add: split_on_append_sep)
  qed
qed

lemma trimmed_trim: "trimmed (trim s)"
proof -
  define a where "a = dropWhile isWhiteSpace s"
  define b where "b = dropWhile isWhiteSpace (rev a)"
  have ts: "trim s = rev b" by (simp add: trim_def a_def b_def)
  show ?thesis
  proof (cases "b = []")
    case True
    with ts show ?thesis by (simp add: trimmed_def)
  next
    case False
    then have hb: "\<not> isWhiteSpace (hd b)" unfolding b_def by (rule hd_dropWhile)
    from False have ra: "rev a \<noteq> []" unfolding b_def by auto
    then have "a \<noteq> []" by simp
    then have ha: "\<not> isWhiteSpace (hd a)" unfolding a_def by (rule hd_dropWhile)
    have "hd b \<in> set (rev a)"
      using False set_dropWhileD[of "hd b" isWhiteSpace "rev a"] unfolding b_def by simp
    with hb have "last b = last (rev a)" unfolding b_def by (metis dropWhile_last)
    then have "last b = hd a" using ra by (simp add: last_rev)
    with ha hb False ts show ?thesis by (simp add: trimmed_def hd_rev last_rev)
  qed
qed

lemma trim_trimmed: "trimmed s \<Longrightarrow> trim s = s"
  by (metis dropWhile_eq_self_iff hd_rev rev.simps(1) rev_rev_ident trim_def trimmed_def)

lemma trim_idem [simp]: "trim (trim s) = trim s"
  by (rule trim_trimmed) (rule trimmed_trim)

lemma set_trim: "set (trim s) \<subseteq> set s"
  by (auto simp: trim_def dest!: set_dropWhileD)

lemma trim_Nil [simp]: "trim [] = []"
  by (simp add: trim_def)

section \<open>Text conversion: the code against the specification\<close>

lemma replace_all_insertCR: "replace_all LF [CR, LF] s = insertCR s"
  by (induction s) (auto simp: replace_all_def)

lemma replace_all_map: "replace_all LF [CR] s = map (\<lambda>c. if c = LF then CR else c) s"
  by (induction s) (auto simp: replace_all_def)

lemma split_on_trimmed_lines:
  "split_on LF (join [LF] (map trim (split_on LF s))) = map trim (split_on LF s)"
  by (rule split_on_join) (auto dest: split_on_sep_free set_trim[THEN subsetD])

lemma normalize_text_eq_spec: "normalize_text opts s = normalize_spec opts s"
  by (simp add: normalize_text_def normalize_spec_def Let_def rewriteTerminators_def
      replace_all_insertCR replace_all_map split_on_trimmed_lines
      trimLines_def dropEmptyLines_def convertedLines_def)

text \<open>
  C7. The conversion of the code is the one the specification words: lines trimmed
  first (when \<open>trimWhitespace\<close>), lines with empty trimmed content dropped next (when
  \<open>removeEmptyLines\<close>), line terminators rewritten last. This holds for the text
  \<open>handleConvert\<close> writes to \<open>outputText\<close> and for every entry \<open>handleDownload\<close> adds to
  the archive.
\<close>

theorem normalize_fixed_order:
  "normalize_text opts s = normalize_spec opts s
   \<and> outputText (handleConvert st) = normalize_spec (options st) (inputText st)
   \<and> handleDownload st =
       (if 1 < length (processedFiles st)
        then ZipArchive (map (\<lambda>file. (stripExtension (path file) @ lit ''.txt'',
                                      normalize_spec (options st) (content file)))
                          (processedFiles st))
        else TextFile (outputText st))"
  by (simp add: normalize_text_eq_spec handleConvert_def handleDownload_def)

text \<open>
  C10. With the options the component starts with (line ending LF, no trimming, no
  removal of empty lines) the conversion returns its input unchanged, whatever the
  text holds, carriage returns included; \<open>handleConvert\<close> copies \<open>inputText\<close> to
  \<open>outputText\<close>.
\<close>

theorem normalize_default_identity:
  "normalize_text defaultOptions s = s
   \<and> outputText (handleConvert (st\<lparr>options := defaultOptions\<rparr>)) = inputText st"
  by (simp add: normalize_text_def defaultOptions_def handleConvert_def lit_def)

section \<open>Applying the conversion twice\<close>

lemma isWhiteSpace_LF [simp]: "isWhiteSpace LF"
  by (simp add: isWhiteSpace_def LF_def)

lemma isWhiteSpace_CR [simp]: "isWhiteSpace CR"
  by (simp add: isWhiteSpace_def CR_def)

lemma CR_neq_LF [simp]: "CR \<noteq> LF" "LF \<noteq> CR"
  by (simp_all add: CR_def LF_def)

lemma trim_eq_Nil_iff: "trim s = [] \<longleftrightarrow> (\<forall>c \<in> set s. isWhiteSpace c)"
proof
  assume "trim s = []"
  then have "\<forall>x \<in> set (dropWhile isWhiteSpace s). isWhiteSpace x"
    by (simp add: trim_def dropWhile_eq_Nil_conv)
  then have "dropWhile isWhiteSpace s = []"
    using hd_dropWhile[of isWhiteSpace s] hd_in_set[of "dropWhile isWhiteSpace s"] by blast
  then show "\<forall>c \<in> set s. isWhiteSpace c" by (simp add: dropWhile_eq_Nil_conv)
next
  assume "\<forall>c \<in> set s. isWhiteSpace c"
  then have a: "dropWhile isWhiteSpace s = []" by simp
  show "trim s = []" by (simp only: trim_def a) simp
qed

lemma convertedLines_LF_free: "l \<in> set (convertedLines opts s) \<Longrightarrow> LF \<notin> set l"
  using set_trim by (auto simp: convertedLines_def dropEmptyLines_def trimLines_def
      dest: split_on_sep_free split: if_splits)

lemma convertedLines_trimmed:
  "trimWhitespace opts \<Longrightarrow> l \<in> set (convertedLines opts s) \<Longrightarrow> trimmed l"
  by (auto simp: convertedLines_def dropEmptyLines_def trimLines_def trimmed_trim split: if_splits)

lemma convertedLines_nonblank:
  "removeEmptyLines opts \<Longrightarrow> l \<in> set (convertedLines opts s) \<Longrightarrow> trim l \<noteq> []"
  by (auto simp: convertedLines_def dropEmptyLines_def)

lemma convertedLines_not_Nil: "\<not> removeEmptyLines opts \<Longrightarrow> convertedLines opts s \<noteq> []"
  by (auto simp: convertedLines_def dropEmptyLines_def trimLines_def)

lemma convertedLines_Nil: "removeEmptyLines opts \<Longrightarrow> convertedLines opts [] = []"
  by (auto simp: convertedLines_def dropEmptyLines_def trimLines_def)

lemma convertedLines_of_lines:
  assumes "\<forall>l \<in> set ls. trimWhitespace opts \<longrightarrow> trimmed l"
    and "\<forall>l \<in> set ls. removeEmptyLines opts \<longrightarrow> trim l \<noteq> []"
  shows "dropEmptyLines (removeEmptyLines opts) (trimLines (trimWhitespace opts) ls) = ls"
proof -
  have "trimLines (trimWhitespace opts) ls = ls"
    using assms(1) by (auto simp: trimLines_def trim_trimmed intro: map_idI)
  moreover have "dropEmptyLines (removeEmptyLines opts) ls = ls"
    using assms(2) by (auto simp: dropEmptyLines_def)
  ultimately show ?thesis by simp
qed

lemma convertedLines_fixed:
  "convertedLines opts (join [LF] (convertedLines opts s)) = convertedLines opts s"
proof (cases "convertedLines opts s = []")
  case True
  then have "removeEmptyLines opts" using convertedLines_not_Nil by blast
  with True show ?thesis by (simp add: convertedLines_Nil)
next
  case False
  then have "split_on LF (join [LF] (convertedLines opts s)) = convertedLines opts s"
    by (intro split_on_join) (auto dest: convertedLines_LF_free)
  then show ?thesis
    unfolding convertedLines_def[of opts "join [LF] _"]
    by (simp add: convertedLines_of_lines convertedLines_trimmed convertedLines_nonblank)
qed

lemma idempotent_LF:
  assumes "lineEnding opts \<noteq> lit ''CRLF''" "lineEnding opts \<noteq> lit ''CR''"
  shows "normalize_text opts (normalize_text opts s) = normalize_text opts s"
  using assms by (simp add: normalize_text_eq_spec normalize_spec_def rewriteTerminators_def
      convertedLines_fixed)

subsection \<open>Applying the conversion twice: CRLF with trimming\<close>

lemma insertCR_LF_free: "LF \<notin> set l \<Longrightarrow> insertCR l = l"
  by (induction l) auto

lemma insertCR_append: "insertCR (a @ b) = insertCR a @ insertCR b"
  by (induction a) auto

lemma trim_append_CR: "trimmed l \<Longrightarrow> trim (l @ [CR]) = l"
proof (cases "l = []")
  case True
  then show ?thesis by (simp add: trim_def)
next
  case False
  assume "trimmed l"
  with False have h: "\<not> isWhiteSpace (hd l)" and t: "\<not> isWhiteSpace (last l)"
    by (simp_all add: trimmed_def)
  from False h have "dropWhile isWhiteSpace (l @ [CR]) = l @ [CR]"
    by (cases l) auto
  moreover from False t have "dropWhile isWhiteSpace (rev l) = rev l"
    by (cases "rev l") (auto simp: last_rev hd_rev dest: arg_cong[where f=hd])
  ultimately show ?thesis by (simp add: trim_def)
qed

lemma trim_lines_of_crlf:
  "ls \<noteq> [] \<Longrightarrow> \<forall>l \<in> set ls. LF \<notin> set l \<and> trimmed l \<Longrightarrow>
   map trim (split_on LF (insertCR (join [LF] ls))) = ls"
proof (induction ls)
  case Nil
  then show ?case by simp
next
  case (Cons l ls)
  show ?case
  proof (cases ls)
    case Nil
    with Cons.prems show ?thesis
      by (simp add: insertCR_LF_free split_on_sep_free_line trim_trimmed)
  next
    case (Cons l' ls')
    have "insertCR (join [LF] (l # ls)) = (l @ [CR]) @ LF # insertCR (join [LF] ls)"
      using Cons Cons.prems by (simp add: insertCR_append insertCR_LF_free)
    moreover have "LF \<notin> set (l @ [CR])" using Cons.prems by simp
    then have "split_on LF ((l @ [CR]) @ LF # insertCR (join [LF] ls))
        = (l @ [CR]) # split_on LF (insertCR (join [LF] ls))"
      by (rule split_on_append_sep)
    ultimately have "split_on LF (insertCR (join [LF] (l # ls)))
        = (l @ [CR]) # split_on LF (insertCR (join [LF] ls))"
      by simp
    with Cons Cons.IH Cons.prems show ?thesis by (simp add: trim_append_CR)
  qed
qed

lemma idempotent_CRLF_trim:
  assumes "lineEnding opts = lit ''CRLF''" "trimWhitespace opts"
  shows "normalize_text opts (normalize_text opts s) = normalize_text opts s"
proof -
  let ?ls = "convertedLines opts s"
  have "convertedLines opts (insertCR (join [LF] ?ls)) = ?ls"
  proof (cases "?ls = []")
    case True
    then have "removeEmptyLines opts" using convertedLines_not_Nil by blast
    with True show ?thesis by (simp add: convertedLines_Nil)
  next
    case False
    then have "map trim (split_on LF (insertCR (join [LF] ?ls))) = ?ls"
      using assms(2) by (intro trim_lines_of_crlf)
        (auto dest: convertedLines_LF_free convertedLines_trimmed)
    moreover have "removeEmptyLines opts \<Longrightarrow> filter (\<lambda>l. trim l \<noteq> []) ?ls = ?ls"
      using convertedLines_nonblank[of opts _ s] by (auto simp: filter_id_conv)
    ultimately show ?thesis
      using assms(2) unfolding convertedLines_def[of opts "insertCR _"]
      by (auto simp: trimLines_def dropEmptyLines_def)
  qed
  with assms show ?thesis
    by (simp add: normalize_text_eq_spec normalize_spec_def rewriteTerminators_def)
qed

subsection \<open>Applying the conversion twice: CR\<close>

lemma set_join: "l \<in> set ls \<Longrightarrow> set l \<subseteq> set (join sep ls)"
  by (induction sep ls rule: join.induct) auto

lemma hd_join: "ls \<noteq> [] \<Longrightarrow> hd ls \<noteq> [] \<Longrightarrow> hd (join sep ls) = hd (hd ls)"
  by (induction sep ls rule: join.induct) auto

lemma join_eq_Nil: "ls \<noteq> [] \<Longrightarrow> hd ls \<noteq> [] \<Longrightarrow> join sep ls \<noteq> []"
  by (induction sep ls rule: join.induct) auto

lemma join_last_not_Nil: "ls \<noteq> [] \<Longrightarrow> last ls \<noteq> [] \<Longrightarrow> join sep ls \<noteq> []"
  by (induction sep ls rule: join.induct) auto

lemma last_join: "ls \<noteq> [] \<Longrightarrow> last ls \<noteq> [] \<Longrightarrow> last (join sep ls) = last (last ls)"
proof (induction sep ls rule: join.induct)
  case (3 sep l l' ls)
  then have "join sep (l' # ls) \<noteq> []" by (intro join_last_not_Nil) auto
  with 3 show ?case by simp
qed auto

lemma toCR_LF_free: "LF \<notin> set (toCR s)"
  by (induction s) auto

lemma toCR_idem: "toCR (toCR s) = toCR s"
  by (induction s) auto

lemma trim_toCR_nonblank: "trim s \<noteq> [] \<Longrightarrow> trim (toCR s) \<noteq> []"
  by (force simp: trim_eq_Nil_iff)

lemma trimmed_toCR: "trimmed s \<Longrightarrow> trimmed (toCR s)"
  by (cases "s = []") (auto simp: trimmed_def hd_map last_map)

lemma idempotent_CR:
  assumes "lineEnding opts = lit ''CR''" "\<not> trimWhitespace opts \<or> removeEmptyLines opts"
  shows "normalize_text opts (normalize_text opts s) = normalize_text opts s"
proof -
  let ?ls = "convertedLines opts s"
  define y where "y = toCR (join [LF] ?ls)"
  have ne: "lit ''CR'' \<noteq> lit ''CRLF''" by (simp add: lit_def)
  have sp: "split_on LF y = [y]"
    unfolding y_def by (rule split_on_sep_free_line) (rule toCR_LF_free)
  have "join [LF] (convertedLines opts y) = y"
  proof (cases "removeEmptyLines opts")
    case False
    with assms(2) show ?thesis by (simp add: convertedLines_def sp trimLines_def dropEmptyLines_def)
  next
    case re: True
    show ?thesis
    proof (cases "?ls = []")
      case True
      with re show ?thesis by (simp add: y_def convertedLines_Nil)
    next
      case False
      then obtain l where l: "l \<in> set ?ls" by (cases ?ls) auto
      with re have "trim l \<noteq> []" by (rule convertedLines_nonblank)
      then obtain c where c: "c \<in> set l" "\<not> isWhiteSpace c" by (auto simp: trim_eq_Nil_iff)
      with l have "c \<in> set (join [LF] ?ls)" using set_join by blast
      with c have nb: "trim (join [LF] ?ls) \<noteq> []" by (auto simp: trim_eq_Nil_iff)
      then have nby: "trim y \<noteq> []" unfolding y_def by (rule trim_toCR_nonblank)
      show ?thesis
      proof (cases "trimWhitespace opts")
        case False
        with re nby show ?thesis
          by (simp add: convertedLines_def sp trimLines_def dropEmptyLines_def)
      next
        case tw: True
        have "\<forall>l \<in> set ?ls. trimmed l \<and> l \<noteq> []"
          using tw re convertedLines_trimmed[of opts _ s] convertedLines_nonblank[of opts _ s]
          by (metis trim_Nil)
        with False have h: "hd ?ls \<noteq> []" "trimmed (hd ?ls)" and t: "last ?ls \<noteq> []" "trimmed (last ?ls)"
          by simp_all
        from False h(1) have jne: "join [LF] ?ls \<noteq> []" by (rule join_eq_Nil)
        have "trimmed (join [LF] ?ls)"
          using False h t jne by (simp add: trimmed_def hd_join last_join)
        then have "trimmed y" unfolding y_def by (rule trimmed_toCR)
        then have "trim y = y" by (rule trim_trimmed)
        with tw re nby show ?thesis
          by (simp add: convertedLines_def sp trimLines_def dropEmptyLines_def)
      qed
    qed
  qed
  with assms(1) ne show ?thesis
    by (simp add: normalize_text_eq_spec normalize_spec_def rewriteTerminators_def toCR_idem y_def)
qed

subsection \<open>Applying the conversion twice: where the result changes\<close>

lemma not_idempotent_CRLF:
  assumes "lineEnding opts = lit ''CRLF''" "\<not> trimWhitespace opts"
  shows "normalize_text opts (normalize_text opts (lit ''a\<newline>b'')) \<noteq> normalize_text opts (lit ''a\<newline>b'')"
  using assms
  by (cases "removeEmptyLines opts")
     (simp_all add: normalize_text_def Let_def lit_def LF_def CR_def replace_all_def trim_def
        isWhiteSpace_def)

lemma not_idempotent_CR:
  assumes "lineEnding opts = lit ''CR''" "trimWhitespace opts" "\<not> removeEmptyLines opts"
  shows "normalize_text opts (normalize_text opts (lit ''a\<newline>'')) \<noteq> normalize_text opts (lit ''a\<newline>'')"
  using assms
  by (cases "removeEmptyLines opts")
     (simp_all add: normalize_text_def Let_def lit_def LF_def CR_def replace_all_def trim_def
        isWhiteSpace_def)

text \<open>
  C2 (as the code has it). Applying the conversion a second time changes nothing, for
  every text, exactly when the line ending is neither CRLF nor CR, or it is CRLF and
  \<open>trimWhitespace\<close> is set (trimming takes the carriage returns away again before they
  are inserted), or it is CR and \<open>trimWhitespace\<close> is off or \<open>removeEmptyLines\<close> is set.
  With CRLF and no trimming the second pass puts a second carriage return before each
  line feed.
\<close>

theorem normalize_idempotent_iff:
  "(\<forall>s. normalize_text opts (normalize_text opts s) = normalize_text opts s) \<longleftrightarrow>
     (lineEnding opts \<noteq> lit ''CRLF'' \<and> lineEnding opts \<noteq> lit ''CR'')
     \<or> (lineEnding opts = lit ''CRLF'' \<and> trimWhitespace opts)
     \<or> (lineEnding opts = lit ''CR'' \<and> (\<not> trimWhitespace opts \<or> removeEmptyLines opts))"
proof
  assume idem: "\<forall>s. normalize_text opts (normalize_text opts s) = normalize_text opts s"
  have "lineEnding opts = lit ''CRLF'' \<Longrightarrow> trimWhitespace opts"
    using idem not_idempotent_CRLF by blast
  moreover have "lineEnding opts = lit ''CR'' \<Longrightarrow> trimWhitespace opts \<Longrightarrow> removeEmptyLines opts"
    using idem not_idempotent_CR by blast
  ultimately show "(lineEnding opts \<noteq> lit ''CRLF'' \<and> lineEnding opts \<noteq> lit ''CR'')
     \<or> (lineEnding opts = lit ''CRLF'' \<and> trimWhitespace opts)
     \<or> (lineEnding opts = lit ''CR'' \<and> (\<not> trimWhitespace opts \<or> removeEmptyLines opts))"
    by blast
next
  assume "(lineEnding opts \<noteq> lit ''CRLF'' \<and> lineEnding opts \<noteq> lit ''CR'')
     \<or> (lineEnding opts = lit ''CRLF'' \<and> trimWhitespace opts)
     \<or> (lineEnding opts = lit ''CR'' \<and> (\<not> trimWhitespace opts \<or> removeEmptyLines opts))"
  then show "\<forall>s. normalize_text opts (normalize_text opts s) = normalize_text opts s"
    using idempotent_LF idempotent_CRLF_trim idempotent_CR by blast
qed

theorem normalize_idempotent_iff_witness:
  "\<forall>s. normalize_text (defaultOptions\<lparr>lineEnding := lit ''CRLF'', trimWhitespace := True\<rparr>)
         (normalize_text (defaultOptions\<lparr>lineEnding := lit ''CRLF'', trimWhitespace := True\<rparr>) s)
       = normalize_text (defaultOptions\<lparr>lineEnding := lit ''CRLF'', trimWhitespace := True\<rparr>) s"
  using normalize_idempotent_iff
          [of "defaultOptions\<lparr>lineEnding := lit ''CRLF'', trimWhitespace := True\<rparr>"]
  by (simp add: defaultOptions_def)

text \<open>
  The claim as stated fails: with line ending CRLF and the other options off, the text
  a LF b becomes a CR LF b, and converting that again gives a CR CR LF b.
\<close>

theorem normalize_crlf_not_idempotent:
  "normalize_text (defaultOptions\<lparr>lineEnding := lit ''CRLF''\<rparr>) (lit ''a\<newline>b'')
     = lit ''a'' @ [CR, LF] @ lit ''b''
   \<and> normalize_text (defaultOptions\<lparr>lineEnding := lit ''CRLF''\<rparr>) (lit ''a'' @ [CR, LF] @ lit ''b'')
     = lit ''a'' @ [CR, CR, LF] @ lit ''b''
   \<and> normalize_text (defaultOptions\<lparr>lineEnding := lit ''CRLF''\<rparr>)
         (normalize_text (defaultOptions\<lparr>lineEnding := lit ''CRLF''\<rparr>) (lit ''a\<newline>b''))
       \<noteq> normalize_text (defaultOptions\<lparr>lineEnding := lit ''CRLF''\<rparr>) (lit ''a\<newline>b'')"
  by (simp add: normalize_text_def defaultOptions_def lit_def LF_def CR_def replace_all_def)

section \<open>The classifier\<close>

lemma office_list_iff:
  "extensionOr extension [] \<in> set (map lit [''doc'', ''docx'', ''xls'', ''xlsx'', ''ppt'', ''pptx''])
   \<longleftrightarrow> officeLibrary extension \<noteq> None"
proof (cases extension)
  case None
  then show ?thesis by (simp add: extensionOr_def officeLibrary_def lit_def)
next
  case (Some e)
  then show ?thesis
    by (auto simp: extensionOr_def orElse_def officeLibrary_def lit_def)
qed

lemma route_eq:
  "route file =
     (if startsWith (file_type file) (lit ''text/'') \<or> startsWith (file_type file) (lit ''image/'')
         \<or> file_type file = lit ''application/pdf''
      then routeByType (file_type file)
      else routeByExtension (extensionOf (file_name file)))"
proof -
  have pdf: "\<not> startsWith (lit ''application/pdf'') (lit ''text/'')"
            "\<not> startsWith (lit ''application/pdf'') (lit ''image/'')"
    by (simp_all add: startsWith_def lit_def)
  show ?thesis
    using office_list_iff[of "extensionOf (file_name file)"] pdf
    by (auto simp: route_def classify_def routeByType_def routeByExtension_def Let_def)
qed

lemma processFile_route:
  "settle (processFile env file) =
     (case route file of
        None \<Rightarrow> Some (0, [], Inr None)
      | Some l \<Rightarrow> afterAwait env file (extraction env l file))"
proof (cases "classify file")
  case OfficeBranch
  then have "officeLibrary (extensionOf (file_name file)) \<noteq> None"
    using office_list_iff[of "extensionOf (file_name file)"]
    by (auto simp: classify_def Let_def split: if_splits)
  with OfficeBranch show ?thesis
    by (auto simp: processFile_def route_def processOfficeFile_def Let_def)
qed (simp_all add: processFile_def route_def processImageFile_def Let_def)

text \<open>
  C5 (as the code has it). \<open>processFile\<close> of src/App.tsx hands the file to the
  library \<open>route\<close> names. The declared media type decides when it is \<open>text/*\<close>,
  \<open>image/*\<close> or \<open>application/pdf\<close>; in every other case, the Office media types
  included, the extension decides (pdf, doc, docx, xls, xlsx, ppt, pptx; anything else
  is unsupported). Only the name and the declared type of the file are looked at.
\<close>

theorem classifier_routes:
  "route file =
     (if startsWith (file_type file) (lit ''text/'') \<or> startsWith (file_type file) (lit ''image/'')
         \<or> file_type file = lit ''application/pdf''
      then routeByType (file_type file)
      else routeByExtension (extensionOf (file_name file)))
   \<and> settle (processFile env file) =
       (case route file of
          None \<Rightarrow> Some (0, [], Inr None)
        | Some l \<Rightarrow> afterAwait env file (extraction env l file))
   \<and> (file_name file' = file_name file \<and> file_type file' = file_type file
        \<longrightarrow> route file' = route file)"
proof (intro conjI impI)
  assume "file_name file' = file_name file \<and> file_type file' = file_type file"
  then have "file_name file' = file_name file" and "file_type file' = file_type file"
    by simp_all
  then show "route file' = route file" by (simp only: route_def classify_def)
qed (rule route_eq, rule processFile_route)

theorem classifier_routes_witness:
  "route scan_pdf = Some Tesseract
   \<and> route (scan_pdf\<lparr>file_size := 2, file_webkitRelativePath := lit ''docs/scan.pdf''\<rparr>) = route scan_pdf"
  using classifier_routes[of scan_pdf _ "scan_pdf\<lparr>file_size := 2, file_webkitRelativePath := lit ''docs/scan.pdf''\<rparr>"]
  by (simp add: scan_pdf_def routeByType_def startsWith_def lit_def)

text \<open>
  The claim as stated fails: a file named report.xlsx that declares the Office media
  type application/msword goes to the spreadsheet reader, by its extension, not to the
  reader of Word documents.
\<close>

theorem classifier_counterexample:
  "routeByType (file_type report_xlsx) = Some Mammoth
   \<and> mediaTypeFirst report_xlsx = Some Mammoth
   \<and> route report_xlsx = Some SheetJS"
  by (simp add: report_xlsx_def mediaTypeFirst_def routeByType_def route_def classify_def
      extensionOf_def extensionOr_def orElse_def officeLibrary_def toLowerCase_def
      startsWith_def lit_def DOT_def Let_def)


section \<open>Running a list of calls\<close>

lemma runEffects_Nil [simp]: "runEffects st [] = st"
  by (simp add: runEffects_def)

lemma runEffects_Cons [simp]: "runEffects st (e # effs) = runEffects (applyEffect e st) effs"
  by (simp add: runEffects_def)

lemma runEffects_append [simp]:
  "runEffects st (a @ b) = runEffects (runEffects st a) b"
  by (simp add: runEffects_def)

lemma consoleLines_simps [simp]:
  "consoleLines [] = []"
  "consoleLines (ConsoleLog l # effs) = l # consoleLines effs"
  "consoleLines (SetIsProcessing b # effs) = consoleLines effs"
  "consoleLines (SetProcessingStatus m # effs) = consoleLines effs"
  "consoleLines (SetStats s # effs) = consoleLines effs"
  "consoleLines (UpdateStats b # effs) = consoleLines effs"
  "consoleLines (LogError n m' # effs) = consoleLines effs"
  "consoleLines (SetErrorLogs ls # effs) = consoleLines effs"
  "consoleLines (SetProcessedFiles fs # effs) = consoleLines effs"
  "consoleLines (SetInputText t # effs) = consoleLines effs"
  by (simp_all add: consoleLines_def map_filter_simps)

lemma consoleLines_append [simp]: "consoleLines (a @ b) = consoleLines a @ consoleLines b"
  by (simp add: consoleLines_def map_filter_def)

lemma processedFilesSet_simps [simp]:
  "processedFilesSet [] = []"
  "processedFilesSet (SetProcessedFiles fs # effs) = fs # processedFilesSet effs"
  "processedFilesSet (ConsoleLog l # effs) = processedFilesSet effs"
  "processedFilesSet (SetIsProcessing b # effs) = processedFilesSet effs"
  "processedFilesSet (SetProcessingStatus m # effs) = processedFilesSet effs"
  "processedFilesSet (SetStats s # effs) = processedFilesSet effs"
  "processedFilesSet (UpdateStats b # effs) = processedFilesSet effs"
  "processedFilesSet (LogError n m' # effs) = processedFilesSet effs"
  "processedFilesSet (SetErrorLogs ls # effs) = processedFilesSet effs"
  "processedFilesSet (SetInputText t # effs) = processedFilesSet effs"
  by (simp_all add: processedFilesSet_def map_filter_simps)

lemma processedFilesSet_append [simp]:
  "processedFilesSet (a @ b) = processedFilesSet a @ processedFilesSet b"
  by (simp add: processedFilesSet_def map_filter_def)

lemma loggedErrors_simps [simp]:
  "loggedErrors [] = []"
  "loggedErrors (LogError n m' # effs) = logMessage n m' # loggedErrors effs"
  "loggedErrors (SetProcessedFiles fs # effs) = loggedErrors effs"
  "loggedErrors (ConsoleLog l # effs) = loggedErrors effs"
  "loggedErrors (SetIsProcessing b # effs) = loggedErrors effs"
  "loggedErrors (SetProcessingStatus m # effs) = loggedErrors effs"
  "loggedErrors (SetStats s # effs) = loggedErrors effs"
  "loggedErrors (UpdateStats b # effs) = loggedErrors effs"
  "loggedErrors (SetErrorLogs ls # effs) = loggedErrors effs"
  "loggedErrors (SetInputText t # effs) = loggedErrors effs"
  by (simp_all add: loggedErrors_def map_filter_simps)

lemma loggedErrors_append [simp]: "loggedErrors (a @ b) = loggedErrors a @ loggedErrors b"
  by (simp add: loggedErrors_def map_filter_def)

lemma statusesSet_simps [simp]:
  "statusesSet [] = []"
  "statusesSet (SetProcessingStatus m # effs) = m # statusesSet effs"
  "statusesSet (LogError n m' # effs) = statusesSet effs"
  "statusesSet (SetProcessedFiles fs # effs) = statusesSet effs"
  "statusesSet (ConsoleLog l # effs) = statusesSet effs"
  "statusesSet (SetIsProcessing b # effs) = statusesSet effs"
  "statusesSet (SetStats s # effs) = statusesSet effs"
  "statusesSet (UpdateStats b # effs) = statusesSet effs"
  "statusesSet (SetErrorLogs ls # effs) = statusesSet effs"
  "statusesSet (SetInputText t # effs) = statusesSet effs"
  by (simp_all add: statusesSet_def map_filter_simps)

lemma statusesSet_append [simp]: "statusesSet (a @ b) = statusesSet a @ statusesSet b"
  by (simp add: statusesSet_def map_filter_def)

lemma processingStatus_runEffects:
  "processingStatus (runEffects st effs) = last (processingStatus st # statusesSet effs)"
proof (induction effs arbitrary: st)
  case (Cons e effs)
  then show ?case by (cases e) simp_all
qed simp

lemma consoleLog_runEffects:
  "consoleLog (runEffects st effs) = consoleLog st @ consoleLines effs"
proof (induction effs arbitrary: st)
  case (Cons e effs)
  then show ?case by (cases e) simp_all
qed simp

lemma processedFiles_runEffects:
  "processedFiles (runEffects st effs) = last (processedFiles st # processedFilesSet effs)"
proof (induction effs arbitrary: st)
  case (Cons e effs)
  then show ?case by (cases e) simp_all
qed simp

text \<open>Calls that give the counters or the log a new value, whatever they held.\<close>

lemma stats_runEffects:
  "\<forall>e \<in> set effs. \<not> resets e \<Longrightarrow>
   stats (runEffects st effs) =
     \<lparr>totalFiles = totalFiles (stats st),
      processed = processed (stats st) + count_list effs (UpdateStats True)
                    + count_list effs (UpdateStats False),
      failed = failed (stats st) + count_list effs (UpdateStats False)\<rparr>"
proof (induction effs arbitrary: st)
  case (Cons e effs)
  then show ?case by (cases e) (simp_all add: updateStats_def)
qed simp

lemma errorLogs_runEffects:
  "\<forall>e \<in> set effs. \<not> resets e \<Longrightarrow>
   errorLogs (runEffects st effs) = errorLogs st @ loggedErrors effs"
proof (induction effs arbitrary: st)
  case (Cons e effs)
  then show ?case by (cases e) (simp_all add: logError_def)
qed simp

section \<open>One call of processFile\<close>

lemma sync_processFile:
  "sync (processFile env f) =
     ConsoleLog (startLine f)
       # (if classify f = UnsupportedBranch
          then [UpdateStats False, LogError (file_name f) (lit ''Unsupported file type'')]
          else [])"
  by (cases "classify f") (simp_all add: processFile_def startLine_def Let_def)

lemma settle_processFile_cases:
  obtains (never) "settle (processFile env f) = None" "classify f \<noteq> UnsupportedBranch"
  | (unsupported) "settle (processFile env f) = Some (0, [], Inr None)" "classify f = UnsupportedBranch"
  | (throws) t m where
      "settle (processFile env f) = Some (t, [UpdateStats False, LogError (file_name f) m], Inr None)"
      "classify f \<noteq> UnsupportedBranch"
  | (nullish) t where
      "settle (processFile env f) = Some (t, [UpdateStats False], Inl TypeError)"
      "classify f \<noteq> UnsupportedBranch"
  | (yields) t c where
      "settle (processFile env f) = Some (t, [UpdateStats True], Inr (Some (processedFile env f c)))"
      "classify f \<noteq> UnsupportedBranch"
proof -
  have aw: "afterAwait env f c = None
      \<or> (\<exists>t m. afterAwait env f c = Some (t, [UpdateStats False, LogError (file_name f) m], Inr None))
      \<or> (\<exists>t. afterAwait env f c = Some (t, [UpdateStats False], Inl TypeError))
      \<or> (\<exists>t x. afterAwait env f c = Some (t, [UpdateStats True], Inr (Some (processedFile env f x))))"
    for c
    by (auto simp: afterAwait_def split: completion.splits settled.splits)
  show ?thesis
  proof (cases "classify f")
    case TextBranch
    with aw[of "extraction env FileText f"] never throws nullish yields show ?thesis
      by (auto simp: processFile_def Let_def)
  next
    case ImageBranch
    with aw[of "processImageFile env f"] never throws nullish yields show ?thesis
      by (auto simp: processFile_def Let_def)
  next
    case PdfBranch
    with aw[of "extraction env PdfJs f"] never throws nullish yields show ?thesis
      by (auto simp: processFile_def Let_def)
  next
    case OfficeBranch
    with aw[of "processOfficeFile env f"] never throws nullish yields show ?thesis
      by (auto simp: processFile_def Let_def)
  next
    case UnsupportedBranch
    with unsupported show ?thesis by (simp add: processFile_def Let_def)
  qed
qed

text \<open>The effects of the continuation of a call, none if it never settles.\<close>

lemma continuation_outcome: "e \<in> set (continuation k) \<Longrightarrow> k = processFile env f \<Longrightarrow> outcomeEffect e"
  by (cases rule: settle_processFile_cases[of env f]) (auto simp: continuation_def)

lemma count_True_file:
  "count_list (fileEffects env f) (UpdateStats True) = (if fileResult env f \<noteq> None then 1 else 0)"
  by (cases rule: settle_processFile_cases[of env f])
     (auto simp: fileEffects_def continuation_def sync_processFile fileResult_def)

lemma count_False_file:
  "count_list (fileEffects env f) (UpdateStats False)
     = (if (settles env f \<and> fileResult env f = None) \<or> rejects env f then 1 else 0)"
  by (cases rule: settle_processFile_cases[of env f])
     (auto simp: fileEffects_def continuation_def sync_processFile fileResult_def settles_def
        rejects_def)

lemma settles_not_rejects: "settles env f \<Longrightarrow> \<not> rejects env f"
  by (auto simp: settles_def rejects_def split: option.splits sum.splits)

lemma settles_settle: "settles env f \<Longrightarrow> settle (processFile env f) \<noteq> None"
  by (auto simp: settles_def split: option.splits)

lemma not_settles_cases:
  "\<not> settles env f \<Longrightarrow> rejects env f \<or> settle (processFile env f) = None"
  by (auto simp: settles_def rejects_def split: option.splits sum.splits)

section \<open>One group\<close>

lemma count_list_concat:
  "count_list (concat xss) x = sum_list (map (\<lambda>xs. count_list xs x) xss)"
  by (induction xss) simp_all

lemma sum_list_insort_key:
  "sum_list (map h (insort_key k x xs)) = h x + sum_list (map h xs)"
  for h :: "'a \<Rightarrow> nat"
  by (induction xs) simp_all

lemma sum_list_sort_key: "sum_list (map h (sort_key k xs)) = sum_list (map h xs)"
  for h :: "'a \<Rightarrow> nat"
  by (induction xs) (simp_all add: sum_list_insort_key)

lemma sum_list_indicator: "sum_list (map (\<lambda>x. if P x then 1 else 0) xs) = length (filter P xs)"
  by (induction xs) simp_all

lemma outcome_quiet:
  assumes "\<forall>e \<in> set effs. outcomeEffect e"
  shows "consoleLines effs = []" and "processedFilesSet effs = []"
    and "\<forall>e \<in> set effs. \<not> resets e" and "statusesSet effs = []"
proof -
  show "statusesSet effs = []" using assms
  proof (induction effs)
    case (Cons e effs) then show ?case by (cases e) simp_all
  qed simp
  show "consoleLines effs = []" using assms
  proof (induction effs)
    case (Cons e effs) then show ?case by (cases e) simp_all
  qed simp
  show "processedFilesSet effs = []" using assms
  proof (induction effs)
    case (Cons e effs) then show ?case by (cases e) simp_all
  qed simp
  show "\<forall>e \<in> set effs. \<not> resets e"
  proof
    fix e assume "e \<in> set effs"
    with assms have "outcomeEffect e" by blast
    then show "\<not> resets e" by (cases e) simp_all
  qed
qed

text \<open>The first rejection among the settlements of a group.\<close>

lemma firstRejection_None_iff:
  "firstRejection ss = None \<longleftrightarrow> (\<forall>s \<in> set ss. \<not> isl (snd (snd s)))"
  by (induction ss rule: firstRejection.induct) auto

lemma firstRejection_Some:
  "firstRejection ss = Some (before, e, late) \<Longrightarrow>
   before @ late = concat (map (\<lambda>(t, effs, v). effs) ss)"
  by (induction ss arbitrary: before rule: firstRejection.induct) auto

lemma settlements_iff:
  "s \<in> set (List.map_filter settle (map (processFile env) batch))
     \<longleftrightarrow> (\<exists>f \<in> set batch. settle (processFile env f) = Some s)"
  by (induction batch) (auto simp: map_filter_simps split: option.splits)

lemma rejects_iff:
  "rejects env f \<longleftrightarrow> (\<exists>s. settle (processFile env f) = Some s \<and> isl (snd (snd s)))"
  by (auto simp: rejects_def split: option.splits sum.splits)

lemma firstRejection_batch:
  "firstRejection (sort_key k (List.map_filter settle (map (processFile env) batch))) = None
     \<longleftrightarrow> (\<forall>f \<in> set batch. \<not> rejects env f)"
  by (simp add: firstRejection_None_iff rejects_iff settlements_iff Ball_def) blast

text \<open>The three ways in which the \<open>await\<close> of a group ends.\<close>

lemma all_settle_iff:
  "list_all (\<lambda>k. settle k \<noteq> None) (map (processFile env) batch) \<and> (\<forall>f \<in> set batch. \<not> rejects env f)
     \<longleftrightarrow> (\<forall>f \<in> set batch. settles env f)"
  by (auto simp: list_all_iff settles_def rejects_def split: option.splits sum.splits)

lemma runBatch_resolved:
  assumes "\<forall>f \<in> set batch. settles env f"
  shows "runBatch env batch i n
     = (batchCalls env batch i n @ batchContinuations env batch, Resolved (map (fileResult env) batch))"
proof -
  from assms have a: "list_all (\<lambda>k. settle k \<noteq> None) (map (processFile env) batch)"
    and b: "\<forall>f \<in> set batch. \<not> rejects env f"
    using all_settle_iff[of env batch] by blast+
  from b have "firstRejection (sort_key (\<lambda>(t, effs, v). t)
      (List.map_filter settle (map (processFile env) batch))) = None"
    by (simp only: firstRejection_batch)
  then show ?thesis using a by (simp add: runBatch_def Let_def)
qed

lemma runBatch_pending:
  assumes "\<forall>f \<in> set batch. \<not> rejects env f" and "\<not> (\<forall>f \<in> set batch. settles env f)"
  shows "runBatch env batch i n
     = (batchCalls env batch i n @ batchContinuations env batch, Pending)"
proof -
  from assms have a: "\<not> list_all (\<lambda>k. settle k \<noteq> None) (map (processFile env) batch)"
    using all_settle_iff[of env batch] by blast
  from assms(1) have "firstRejection (sort_key (\<lambda>(t, effs, v). t)
      (List.map_filter settle (map (processFile env) batch))) = None"
    by (simp only: firstRejection_batch)
  then show ?thesis using a by (simp add: runBatch_def Let_def)
qed

lemma runBatch_rejected:
  assumes "\<not> (\<forall>f \<in> set batch. \<not> rejects env f)"
  obtains before e late where
    "runBatch env batch i n = (batchCalls env batch i n @ before, Rejected e late)"
    "before @ late = batchContinuations env batch"
proof -
  let ?ss = "sort_key (\<lambda>(t, effs, v). t) (List.map_filter settle (map (processFile env) batch))"
  from assms have "firstRejection ?ss \<noteq> None"
    by (simp only: firstRejection_batch) simp
  then obtain before e late where f: "firstRejection ?ss = Some (before, e, late)"
    by (cases "firstRejection ?ss") auto
  then have "runBatch env batch i n = (batchCalls env batch i n @ before, Rejected e late)"
    by (simp add: runBatch_def Let_def)
  moreover have "before @ late = batchContinuations env batch"
    using firstRejection_Some[OF f] by (simp add: batchContinuations_def)
  ultimately show ?thesis by (rule that)
qed

text \<open>
  In every case the calls of a group are the calls before the first \<open>await\<close> of each
  call, followed by calls of continuations.
\<close>

lemma fst_runBatch:
  obtains p where "fst (runBatch env batch i n) = batchCalls env batch i n @ p"
    and "set p \<subseteq> set (batchContinuations env batch)"
proof (cases "\<forall>f \<in> set batch. \<not> rejects env f")
  case no: True
  show ?thesis
  proof (cases "\<forall>f \<in> set batch. settles env f")
    case True
    from runBatch_resolved[OF this] that show ?thesis by simp
  next
    case False
    from runBatch_pending[OF no this] that show ?thesis by simp
  qed
next
  case False
  then obtain before e late where
    r: "runBatch env batch i n = (batchCalls env batch i n @ before, Rejected e late)"
    and s: "before @ late = batchContinuations env batch"
    by (rule runBatch_rejected)
  from s have "set before \<subseteq> set (batchContinuations env batch)" by (metis set_append Un_upper1)
  with r that show ?thesis by simp
qed

lemma batchContinuations_outcome: "e \<in> set (batchContinuations env batch) \<Longrightarrow> outcomeEffect e"
proof -
  assume "e \<in> set (batchContinuations env batch)"
  then obtain t effs v where s: "(t, effs, v) \<in> set (List.map_filter settle (map (processFile env) batch))"
    and e: "e \<in> set effs"
    by (auto simp: batchContinuations_def)
  from s obtain f where "f \<in> set batch" "settle (processFile env f) = Some (t, effs, v)"
    by (auto simp: map_filter_def)
  with e have "e \<in> set (continuation (processFile env f))" by (simp add: continuation_def)
  then show ?thesis by (rule continuation_outcome) simp
qed

lemma count_batchContinuations:
  "count_list (batchContinuations env batch) x
     = sum_list (map (\<lambda>f. count_list (continuation (processFile env f)) x) batch)"
proof -
  have "count_list (batchContinuations env batch) x
      = sum_list (map (\<lambda>(t, effs, v). count_list effs x)
          (List.map_filter settle (map (processFile env) batch)))"
    by (simp add: batchContinuations_def count_list_concat comp_def case_prod_unfold
        sum_list_sort_key[of "\<lambda>s. count_list (fst (snd s)) x"])
  also have "\<dots> = sum_list (map (\<lambda>f. count_list (continuation (processFile env f)) x) batch)"
    by (induction batch) (auto simp: map_filter_simps continuation_def split: option.splits)
  finally show ?thesis .
qed

lemma count_batchCalls:
  "outcomeEffect x \<Longrightarrow>
   count_list (batchCalls env batch i n) x
     = sum_list (map (\<lambda>f. count_list (sync (processFile env f)) x) batch)"
  by (cases x) (simp_all add: batchCalls_def count_list_concat comp_def)

lemma count_batch:
  "outcomeEffect x \<Longrightarrow>
   count_list (batchCalls env batch i n @ batchContinuations env batch) x
     = sum_list (map (\<lambda>f. count_list (fileEffects env f) x) batch)"
  by (simp add: count_batchCalls count_batchContinuations sum_list_addf fileEffects_def)

lemma count_runBatch:
  "outcomeEffect x \<Longrightarrow> \<forall>f \<in> set batch. \<not> rejects env f \<Longrightarrow>
   count_list (fst (runBatch env batch i n)) x
     = sum_list (map (\<lambda>f. count_list (fileEffects env f) x) batch)"
  using runBatch_resolved[of batch env i n] runBatch_pending[of batch env i n] count_batch[of x env batch i n]
  by (cases "\<forall>f \<in> set batch. settles env f") simp_all

lemma consoleLines_batchCalls: "consoleLines (batchCalls env batch i n) = map startLine batch"
  by (induction batch) (simp_all add: batchCalls_def sync_processFile)

lemma quiet_continuations:
  assumes "set p \<subseteq> set (batchContinuations env batch)"
  shows "consoleLines p = []" and "processedFilesSet p = []"
    and "\<forall>e \<in> set p. \<not> resets e" and "statusesSet p = []"
proof -
  from assms have "\<forall>e \<in> set p. outcomeEffect e"
    using batchContinuations_outcome by blast
  then show "consoleLines p = []" and "processedFilesSet p = []"
    and "\<forall>e \<in> set p. \<not> resets e" and "statusesSet p = []"
    by (rule outcome_quiet)+
qed

lemma consoleLines_runBatch: "consoleLines (fst (runBatch env batch i n)) = map startLine batch"
proof -
  obtain p where "fst (runBatch env batch i n) = batchCalls env batch i n @ p"
    and "set p \<subseteq> set (batchContinuations env batch)"
    by (rule fst_runBatch)
  then show ?thesis by (simp add: consoleLines_batchCalls quiet_continuations(1))
qed

lemma statusesSet_runBatch:
  "statusesSet (fst (runBatch env batch i n))
     = map (\<lambda>f. ProcessingFile (file_name f) (i + 1) n) batch"
proof -
  have "statusesSet (batchCalls env batch i n) = map (\<lambda>f. ProcessingFile (file_name f) (i + 1) n) batch"
    by (induction batch) (simp_all add: batchCalls_def sync_processFile)
  moreover obtain p where "fst (runBatch env batch i n) = batchCalls env batch i n @ p"
    and "set p \<subseteq> set (batchContinuations env batch)"
    by (rule fst_runBatch)
  ultimately show ?thesis by (simp add: quiet_continuations(4))
qed

lemma processedFilesSet_runBatch: "processedFilesSet (fst (runBatch env batch i n)) = []"
proof -
  have "processedFilesSet (batchCalls env batch i n) = []"
    by (induction batch) (simp_all add: batchCalls_def sync_processFile)
  moreover obtain p where "fst (runBatch env batch i n) = batchCalls env batch i n @ p"
    and "set p \<subseteq> set (batchContinuations env batch)"
    by (rule fst_runBatch)
  ultimately show ?thesis by (simp add: quiet_continuations(2))
qed

lemma resets_batchCalls: "e \<in> set (batchCalls env batch i n) \<Longrightarrow> \<not> resets e"
  by (induction batch) (auto simp: batchCalls_def sync_processFile)

lemma resets_runBatch: "e \<in> set (fst (runBatch env batch i n)) \<Longrightarrow> \<not> resets e"
proof -
  obtain p where "fst (runBatch env batch i n) = batchCalls env batch i n @ p"
    and "set p \<subseteq> set (batchContinuations env batch)"
    by (rule fst_runBatch)
  moreover assume "e \<in> set (fst (runBatch env batch i n))"
  ultimately show ?thesis
    using resets_batchCalls[of e env batch i n] quiet_continuations(3)[of p env batch] by auto
qed

lemma survivors_results: "List.map_filter id (map (fileResult env) batch) = survivors env batch"
  by (induction batch) (simp_all add: survivors_def map_filter_simps split: option.splits)

section \<open>The loop\<close>

lemma runBatch_pair: "runBatch env batch i n = (fst (runBatch env batch i n), snd (runBatch env batch i n))"
  by simp

lemma loop_done:
  "\<not> i < length files \<Longrightarrow>
   handleFolderUpload_loop env cancel files i acc = ([SetInputText (combinedText acc)], Completed)"
  by (subst handleFolderUpload_loop.simps) simp

lemma loop_cancelled:
  "i < length files \<Longrightarrow> aborted cancel i \<Longrightarrow>
   handleFolderUpload_loop env cancel files i acc = ([], CancelledRun)"
  by (subst handleFolderUpload_loop.simps) simp

lemma loop_stuck:
  "i < length files \<Longrightarrow> \<not> aborted cancel i \<Longrightarrow>
   \<forall>f \<in> set (slice_files files i (i + batchSize)). \<not> rejects env f \<Longrightarrow>
   \<not> (\<forall>f \<in> set (slice_files files i (i + batchSize)). settles env f) \<Longrightarrow>
   handleFolderUpload_loop env cancel files i acc
     = (fst (runBatch env (slice_files files i (i + batchSize)) i (length files)), NeverResumes)"
  apply (subst handleFolderUpload_loop.simps)
  apply (simp add: runBatch_pending Let_def)
  done

lemma loop_failed:
  assumes "i < length files" and "\<not> aborted cancel i"
    and "\<not> (\<forall>f \<in> set (slice_files files i (i + batchSize)). \<not> rejects env f)"
  obtains before e late where
    "handleFolderUpload_loop env cancel files i acc
       = (batchCalls env (slice_files files i (i + batchSize)) i (length files) @ before,
          Failed e late)"
    "fst (runBatch env (slice_files files i (i + batchSize)) i (length files))
       = batchCalls env (slice_files files i (i + batchSize)) i (length files) @ before"
    "before @ late = batchContinuations env (slice_files files i (i + batchSize))"
proof -
  let ?batch = "slice_files files i (i + batchSize)"
  obtain before e late where
    r: "runBatch env ?batch i (length files)
          = (batchCalls env ?batch i (length files) @ before, Rejected e late)"
    and s: "before @ late = batchContinuations env ?batch"
    using assms(3) by (rule runBatch_rejected)
  have "handleFolderUpload_loop env cancel files i acc
       = (batchCalls env ?batch i (length files) @ before, Failed e late)"
    using assms(1,2) by (subst handleFolderUpload_loop.simps) (simp add: r Let_def)
  moreover have "fst (runBatch env ?batch i (length files))
       = batchCalls env ?batch i (length files) @ before"
    by (simp add: r)
  ultimately show ?thesis using s by (rule that)
qed

lemma loop_step:
  "i < length files \<Longrightarrow> \<not> aborted cancel i \<Longrightarrow>
   \<forall>f \<in> set (slice_files files i (i + batchSize)). settles env f \<Longrightarrow>
   handleFolderUpload_loop env cancel files i acc
     = (fst (runBatch env (slice_files files i (i + batchSize)) i (length files))
          @ [SetProcessedFiles (acc @ survivors env (slice_files files i (i + batchSize))),
             SetProcessingStatus
               (ProcessedCount (i + length (slice_files files i (i + batchSize))) (length files))]
          @ fst (handleFolderUpload_loop env cancel files (i + batchSize)
                  (acc @ survivors env (slice_files files i (i + batchSize)))),
        snd (handleFolderUpload_loop env cancel files (i + batchSize)
                  (acc @ survivors env (slice_files files i (i + batchSize)))))"
  apply (subst handleFolderUpload_loop.simps)
  apply (simp add: runBatch_resolved Let_def survivors_results case_prod_unfold)
  done

text \<open>The five ways in which an iteration of the loop goes on.\<close>

lemma loop_cases:
  obtains (finished) "\<not> i < length files"
  | (cancelled) "i < length files" "aborted cancel i"
  | (failed) "i < length files" "\<not> aborted cancel i"
      "\<not> (\<forall>f \<in> set (slice_files files i (i + batchSize)). \<not> rejects env f)"
  | (stuck) "i < length files" "\<not> aborted cancel i"
      "\<forall>f \<in> set (slice_files files i (i + batchSize)). \<not> rejects env f"
      "\<not> (\<forall>f \<in> set (slice_files files i (i + batchSize)). settles env f)"
  | (step) "i < length files" "\<not> aborted cancel i"
      "\<forall>f \<in> set (slice_files files i (i + batchSize)). settles env f"
  by blast

lemma slice_batch: "slice_files files i (i + batchSize) = take batchSize (drop i files)"
  by (simp add: slice_files_def)

lemma drop_batch: "drop (i + batchSize) files = drop batchSize (drop i files)"
  by (simp add: add.commute)

lemma sum_list_take_le: "sum_list (map h (take k xs)) \<le> sum_list (map h xs)"
  for h :: "'a \<Rightarrow> nat"
proof -
  have "sum_list (map h xs) = sum_list (map h (take k xs)) + sum_list (map h (drop k xs))"
    by (metis append_take_drop_id map_append sum_list_append)
  then show ?thesis by simp
qed

lemma outcome_neq [simp]:
  "outcomeEffect x \<Longrightarrow> SetInputText t \<noteq> x"
  "outcomeEffect x \<Longrightarrow> SetProcessedFiles fs \<noteq> x"
  "outcomeEffect x \<Longrightarrow> SetProcessingStatus m \<noteq> x"
  "outcomeEffect x \<Longrightarrow> SetIsProcessing b \<noteq> x"
  "outcomeEffect x \<Longrightarrow> SetStats s \<noteq> x"
  "outcomeEffect x \<Longrightarrow> SetErrorLogs ls \<noteq> x"
  "outcomeEffect x \<Longrightarrow> ConsoleLog l \<noteq> x"
  by (cases x; simp)+

lemma runEnd_simps [simp]:
  "runEnd Completed = [SetIsProcessing False]"
  "runEnd CancelledRun = [SetProcessingStatus ProcessingCancelled, SetIsProcessing False]"
  "runEnd NeverResumes = []"
  "runEnd (Failed e late) =
     [SetProcessingStatus (if e = Error (lit ''Processing cancelled'')
                           then ProcessingCancelled else ErrorProcessingFiles),
      SetIsProcessing False] @ late"
  by (simp_all add: runEnd_def)

lemma count_split: "before @ late = xs \<Longrightarrow> count_list before x + count_list late x = count_list xs x"
  by auto

text \<open>
  A run makes every call of the files it has started, and no other call that counts
  or logs.
\<close>

lemma loop_count_le:
  "outcomeEffect x \<Longrightarrow>
   count_list (fst (handleFolderUpload_loop env cancel files i acc)
                 @ runEnd (snd (handleFolderUpload_loop env cancel files i acc))) x
     \<le> sum_list (map (\<lambda>f. count_list (fileEffects env f) x) (drop i files))"
proof (induction "length files - i" arbitrary: i acc rule: less_induct)
  case less
  let ?batch = "slice_files files i (i + batchSize)"
  let ?h = "\<lambda>f. count_list (fileEffects env f) x"
  have batch_le: "sum_list (map ?h ?batch) \<le> sum_list (map ?h (drop i files))"
    using sum_list_take_le[of ?h batchSize "drop i files"] by (simp add: slice_files_def)
  show ?case
  proof (cases rule: loop_cases[where i=i and files=files and cancel=cancel and env=env])
    case finished
    with less.prems show ?thesis by (simp add: loop_done)
  next
    case cancelled
    with less.prems show ?thesis by (simp add: loop_cancelled)
  next
    case failed
    then obtain before e late where
      L: "handleFolderUpload_loop env cancel files i acc
           = (batchCalls env ?batch i (length files) @ before, Failed e late)"
      and s: "before @ late = batchContinuations env ?batch"
      by (rule loop_failed)
    have "count_list (batchCalls env ?batch i (length files) @ before @ late) x
        = sum_list (map ?h ?batch)"
      using count_batch[OF less.prems, of env ?batch i "length files"] by (simp only: s)
    with batch_le less.prems show ?thesis by (simp add: L)
  next
    case stuck
    then show ?thesis
      using less.prems batch_le by (simp add: loop_stuck count_runBatch)
  next
    case step
    have "length files - (i + batchSize) < length files - i"
      using step(1) by (simp add: batchSize_def)
    from less.hyps[OF this less.prems]
    have "count_list (fst (handleFolderUpload_loop env cancel files (i + batchSize)
              (acc @ survivors env ?batch))
            @ runEnd (snd (handleFolderUpload_loop env cancel files (i + batchSize)
              (acc @ survivors env ?batch)))) x
          \<le> sum_list (map ?h (drop batchSize (drop i files)))"
      by (simp only: drop_batch)
    moreover have "sum_list (map ?h (drop i files))
        = sum_list (map ?h (take batchSize (drop i files)))
          + sum_list (map ?h (drop batchSize (drop i files)))"
      by (metis append_take_drop_id map_append sum_list_append)
    moreover have "\<forall>f \<in> set ?batch. \<not> rejects env f"
      using step(3) settles_not_rejects by blast
    ultimately show ?thesis
      using step less.prems by (simp add: loop_step count_runBatch slice_batch)
  qed
qed

lemma loop_no_resets:
  "e \<in> set (fst (handleFolderUpload_loop env cancel files i acc)
             @ runEnd (snd (handleFolderUpload_loop env cancel files i acc))) \<Longrightarrow> \<not> resets e"
proof (induction "length files - i" arbitrary: i acc rule: less_induct)
  case less
  let ?batch = "slice_files files i (i + batchSize)"
  show ?case
  proof (cases rule: loop_cases[where i=i and files=files and cancel=cancel and env=env])
    case finished
    with less.prems show ?thesis by (auto simp: loop_done)
  next
    case cancelled
    with less.prems show ?thesis by (auto simp: loop_cancelled)
  next
    case failed
    then obtain before er late where
      L: "handleFolderUpload_loop env cancel files i acc
           = (batchCalls env ?batch i (length files) @ before, Failed er late)"
      and s: "before @ late = batchContinuations env ?batch"
      by (rule loop_failed)
    from s have "set before \<union> set late = set (batchContinuations env ?batch)"
      by (metis set_append)
    then have "\<forall>x \<in> set before \<union> set late. \<not> resets x"
      using quiet_continuations(3)[of "batchContinuations env ?batch" env ?batch] by simp
    with less.prems show ?thesis
      using resets_batchCalls[of e env ?batch i "length files"] by (auto simp: L)
  next
    case stuck
    with less.prems show ?thesis by (auto simp: loop_stuck dest: resets_runBatch)
  next
    case step
    have "length files - (i + batchSize) < length files - i"
      using step(1) by (simp add: batchSize_def)
    note IH = less.hyps[OF this, of "acc @ survivors env ?batch"]
    have IH': "\<not> resets e"
      if "e \<in> set (fst (handleFolderUpload_loop env cancel files (i + batchSize)
                (acc @ survivors env ?batch)))
          \<or> e \<in> set (runEnd (snd (handleFolderUpload_loop env cancel files (i + batchSize)
                (acc @ survivors env ?batch))))"
      using that IH by simp
    from less.prems step show ?thesis
      using IH' by (auto simp: loop_step dest: resets_runBatch)
  qed
qed

lemma survivors_append [simp]: "survivors env (a @ b) = survivors env a @ survivors env b"
  by (simp add: survivors_def map_filter_def)

lemma survivors_Nil [simp]: "survivors env [] = []"
  by (simp add: survivors_def map_filter_simps)

lemma take_split_batch:
  assumes "i < c" "i + batchSize \<le> c \<or> c = length files" "c \<le> length files"
  shows "take (c - i) (drop i files)
     = take batchSize (drop i files) @ take (c - (i + batchSize)) (drop (i + batchSize) files)"
proof (cases "i + batchSize \<le> c")
  case le: True
  then have "c - i = batchSize + (c - (i + batchSize))" by simp
  then have "take (c - i) (drop i files)
     = take batchSize (drop i files) @ take (c - (i + batchSize)) (drop batchSize (drop i files))"
    by (simp only: take_add)
  then show ?thesis by (simp only: drop_batch)
next
  case gt: False
  with assms(2) have "c = length files" by simp
  with gt show ?thesis by simp
qed

lemma set_take_drop_subset: "i \<le> c \<Longrightarrow> set (take (c - i) (drop i files)) \<subseteq> set (take c files)"
proof -
  assume "i \<le> c"
  then have "take c files = take i files @ take (c - i) (drop i files)"
    by (metis le_add_diff_inverse take_add)
  then show ?thesis by simp
qed

lemma loop_scenario:
  assumes c_le: "c \<le> length files"
    and all_settle: "\<forall>f \<in> set (take c files). settles env f"
    and stop: "\<forall>j < length files. batchSize dvd j \<longrightarrow> (aborted cancel j \<longleftrightarrow> c \<le> j)"
    and shape: "batchSize dvd c \<or> c = length files"
  shows "batchSize dvd i \<Longrightarrow> i \<le> c \<or> c = length files \<Longrightarrow>
     snd (handleFolderUpload_loop env cancel files i acc)
       = (if c = length files then Completed else CancelledRun)
     \<and> consoleLines (fst (handleFolderUpload_loop env cancel files i acc))
         = map startLine (take (c - i) (drop i files))
     \<and> (processedFilesSet (fst (handleFolderUpload_loop env cancel files i acc)) \<noteq> [] \<longleftrightarrow> i < c)
     \<and> (i < c \<longrightarrow> last (processedFilesSet (fst (handleFolderUpload_loop env cancel files i acc)))
                   = acc @ survivors env (take (c - i) (drop i files)))
     \<and> (statusesSet (fst (handleFolderUpload_loop env cancel files i acc)) \<noteq> [] \<longleftrightarrow> i < c)
     \<and> (i < c \<longrightarrow> last (statusesSet (fst (handleFolderUpload_loop env cancel files i acc)))
                   = ProcessedCount c (length files))
     \<and> (\<forall>x. outcomeEffect x \<longrightarrow>
           count_list (fst (handleFolderUpload_loop env cancel files i acc)) x
             = sum_list (map (\<lambda>f. count_list (fileEffects env f) x) (take (c - i) (drop i files))))"
proof (induction "length files - i" arbitrary: i acc rule: less_induct)
  case less
  let ?batch = "slice_files files i (i + batchSize)"
  let ?D = "drop i files"
  show ?case
  proof (cases "i < length files")
    case False
    with less.prems c_le have "c = length files" "c - i = 0" by auto
    with False show ?thesis by (simp add: loop_done)
  next
    case True
    show ?thesis
    proof (cases "aborted cancel i")
      case ab: True
      with stop True less.prems(1) have "c \<le> i" by blast
      with less.prems(2) True have "c = i" "c \<noteq> length files" by auto
      with True ab show ?thesis by (simp add: loop_cancelled)
    next
      case nab: False
      with stop True less.prems(1) have ic: "i < c" by auto
      have next_ok: "i + batchSize \<le> c \<or> c = length files"
      proof (cases "c = length files")
        case False
        with shape have "batchSize dvd c" by simp
        with less.prems(1) have "batchSize dvd (c - i)" by (simp add: dvd_diff_nat)
        moreover have "0 < c - i" using ic by simp
        ultimately have "batchSize \<le> c - i" by (rule dvd_imp_le)
        with ic show ?thesis by linarith
      qed simp
      note split = take_split_batch[OF ic next_ok c_le]
      have "set (take (c - i) ?D) \<subseteq> set (take c files)"
        using ic by (intro set_take_drop_subset) simp
      with split all_settle have settle_batch: "\<forall>f \<in> set ?batch. settles env f"
        by (auto simp: slice_batch)
      have meas: "length files - (i + batchSize) < length files - i"
        using True by (simp add: batchSize_def)
      have dvd': "batchSize dvd i + batchSize" using less.prems(1) by simp
      note IH = less.hyps[OF meas dvd' next_ok, of "acc @ survivors env ?batch"]
      note unfold = loop_step[OF True nab settle_batch, of acc]
      define R where "R = handleFolderUpload_loop env cancel files (i + batchSize)
                            (acc @ survivors env ?batch)"
      define T' where "T' = take (c - (i + batchSize)) (drop (i + batchSize) files)"
      have T'_Nil: "\<not> i + batchSize < c \<Longrightarrow> T' = []" by (simp add: T'_def)
      have IH1: "snd R = (if c = length files then Completed else CancelledRun)"
        and IH2: "consoleLines (fst R) = map startLine T'"
        and IH3: "processedFilesSet (fst R) \<noteq> [] \<longleftrightarrow> i + batchSize < c"
        and IH4: "i + batchSize < c \<Longrightarrow>
                    last (processedFilesSet (fst R)) = acc @ survivors env ?batch @ survivors env T'"
        and IH7: "statusesSet (fst R) \<noteq> [] \<longleftrightarrow> i + batchSize < c"
        and IH6: "i + batchSize < c \<Longrightarrow>
                    last (statusesSet (fst R)) = ProcessedCount c (length files)"
        and IH5: "\<And>x. outcomeEffect x \<Longrightarrow>
                    count_list (fst R) x = sum_list (map (\<lambda>f. count_list (fileEffects env f) x) T')"
        using IH unfolding R_def T'_def by simp_all
      have split': "take (c - i) ?D = ?batch @ T'"
        using split by (simp add: slice_batch T'_def)
      have G1: "snd (handleFolderUpload_loop env cancel files i acc)
          = (if c = length files then Completed else CancelledRun)"
        unfolding unfold using IH1 by (simp add: R_def)
      have G2: "consoleLines (fst (handleFolderUpload_loop env cancel files i acc))
          = map startLine (take (c - i) ?D)"
        unfolding unfold split' using IH2
        by (simp add: R_def consoleLines_runBatch)
      have pfs: "processedFilesSet (fst (handleFolderUpload_loop env cancel files i acc))
          = (acc @ survivors env ?batch) # processedFilesSet (fst R)"
        unfolding unfold by (simp add: R_def processedFilesSet_runBatch)
      have G4: "last (processedFilesSet (fst (handleFolderUpload_loop env cancel files i acc)))
          = acc @ survivors env (take (c - i) ?D)"
      proof (cases "i + batchSize < c")
        case True
        with IH3 IH4 show ?thesis unfolding pfs split' by simp
      next
        case False
        with IH3 T'_Nil show ?thesis unfolding pfs split' by simp
      qed
      have sts: "statusesSet (fst (handleFolderUpload_loop env cancel files i acc))
          = map (\<lambda>f. ProcessingFile (file_name f) (i + 1) (length files)) ?batch
            @ ProcessedCount (i + length ?batch) (length files) # statusesSet (fst R)"
        unfolding unfold by (simp add: R_def statusesSet_runBatch)
      have G6: "last (statusesSet (fst (handleFolderUpload_loop env cancel files i acc)))
          = ProcessedCount c (length files)"
      proof (cases "i + batchSize < c")
        case True
        with IH7 IH6 show ?thesis unfolding sts by simp
      next
        case False
        with IH7 have "statusesSet (fst R) = []" by simp
        moreover have "i + length ?batch = c"
          using False next_ok c_le True by (auto simp: slice_batch)
        ultimately show ?thesis unfolding sts by simp
      qed
      have no_reject: "\<forall>f \<in> set ?batch. \<not> rejects env f"
        using settle_batch settles_not_rejects by blast
      have G5: "count_list (fst (handleFolderUpload_loop env cancel files i acc)) x
          = sum_list (map (\<lambda>f. count_list (fileEffects env f) x) (take (c - i) ?D))"
        if "outcomeEffect x" for x
        unfolding unfold split' using IH5[OF that] that
        by (simp add: R_def count_runBatch[OF that no_reject])
      from G1 G2 pfs G4 G5 G6 sts ic show ?thesis by simp
    qed
  qed
qed

section \<open>The whole run\<close>

lemma handleFolderUpload_effects:
  "files \<noteq> [] \<Longrightarrow>
   handleFolderUpload env cancel files =
     ([SetIsProcessing True, SetProcessingStatus ScanningFiles,
       SetStats \<lparr>totalFiles = length files, processed = 0, failed = 0\<rparr>, SetErrorLogs []]
      @ fst (handleFolderUpload_loop env cancel files 0 [])
      @ runEnd (snd (handleFolderUpload_loop env cancel files 0 [])),
      snd (handleFolderUpload_loop env cancel files 0 []))"
  by (simp add: handleFolderUpload_def case_prod_unfold)

lemma aborted_0 [simp]: "\<not> aborted cancel 0"
  by (simp add: aborted_def controllerAt_def)

lemma runEnd_quiet:
  assumes "e = Completed \<or> e = CancelledRun"
  shows "consoleLines (runEnd e) = []" and "processedFilesSet (runEnd e) = []"
    and "outcomeEffect x \<Longrightarrow> count_list (runEnd e) x = 0"
  using assms by auto

lemma count_list_pos_iff: "0 < count_list xs x \<longleftrightarrow> x \<in> set xs"
  using count_list_0_iff[of xs x] by auto

lemma sum_list_pos: "x \<in> set xs \<Longrightarrow> 0 < h x \<Longrightarrow> 0 < sum_list (map h xs)"
  for h :: "'a \<Rightarrow> nat"
  by (induction xs) auto

lemma length_filter_compl: "length (filter P xs) + length (filter (\<lambda>x. \<not> P x) xs) = length xs"
  by (induction xs) simp_all

lemma run_scenario:
  fixes st :: AppState
  assumes ne: "files \<noteq> []"
    and c_le: "c \<le> length files"
    and all_settle: "\<forall>f \<in> set (take c files). settles env f"
    and stop: "\<forall>j < length files. batchSize dvd j \<longrightarrow> (aborted cancel j \<longleftrightarrow> c \<le> j)"
    and shape: "batchSize dvd c \<or> c = length files"
  defines "st' \<equiv> runEffects st (fst (handleFolderUpload env cancel files))"
  shows "snd (handleFolderUpload env cancel files)
           = (if c = length files then Completed else CancelledRun)"
    and "processedFiles st' = survivors env (take c files)"
    and "consoleLog st' = consoleLog st @ map startLine (take c files)"
    and "stats st' = \<lparr>totalFiles = length files, processed = c,
                        failed = length (filter (\<lambda>f. fileResult env f = None) (take c files))\<rparr>"
    and "f \<in> set (take c files) \<Longrightarrow> LogError n m \<in> set (fileEffects env f) \<Longrightarrow>
           logMessage n m \<in> set (errorLogs st')"
    and "\<not> isProcessing st'"
    and "processingStatus st'
           = (if c = length files then ProcessedCount c (length files) else ProcessingCancelled)"
proof -
  let ?L = "handleFolderUpload_loop env cancel files 0 []"
  from ne stop have c0: "0 < c" by (metis aborted_0 dvd_0_right length_greater_0_conv not_le)
  have sc: "snd ?L = (if c = length files then Completed else CancelledRun)
     \<and> consoleLines (fst ?L) = map startLine (take (c - 0) (drop 0 files))
     \<and> (processedFilesSet (fst ?L) \<noteq> [] \<longleftrightarrow> 0 < c)
     \<and> (0 < c \<longrightarrow> last (processedFilesSet (fst ?L)) = [] @ survivors env (take (c - 0) (drop 0 files)))
     \<and> (statusesSet (fst ?L) \<noteq> [] \<longleftrightarrow> 0 < c)
     \<and> (0 < c \<longrightarrow> last (statusesSet (fst ?L)) = ProcessedCount c (length files))
     \<and> (\<forall>x. outcomeEffect x \<longrightarrow>
           count_list (fst ?L) x
             = sum_list (map (\<lambda>f. count_list (fileEffects env f) x) (take (c - 0) (drop 0 files))))"
    by (rule loop_scenario[OF c_le all_settle stop shape]) simp_all
  then have e: "snd ?L = (if c = length files then Completed else CancelledRun)"
    and cl: "consoleLines (fst ?L) = map startLine (take c files)"
    and pne: "processedFilesSet (fst ?L) \<noteq> []"
    and pl: "last (processedFilesSet (fst ?L)) = survivors env (take c files)"
    and sne: "statusesSet (fst ?L) \<noteq> []"
    and sl: "last (statusesSet (fst ?L)) = ProcessedCount c (length files)"
    and cnt: "\<And>x. outcomeEffect x \<Longrightarrow>
           count_list (fst ?L) x = sum_list (map (\<lambda>f. count_list (fileEffects env f) x) (take c files))"
    using c0 by simp_all
  from e have ee: "snd ?L = Completed \<or> snd ?L = CancelledRun" by simp
  note quiet = runEnd_quiet[OF ee]
  note eff = handleFolderUpload_effects[OF ne, of env cancel]
  show "snd (handleFolderUpload env cancel files)
           = (if c = length files then Completed else CancelledRun)"
    using e by (simp add: eff)
  show "processedFiles st' = survivors env (take c files)"
    using pne pl by (simp add: st'_def eff processedFiles_runEffects quiet)
  show "consoleLog st' = consoleLog st @ map startLine (take c files)"
    using cl by (simp add: st'_def eff consoleLog_runEffects quiet)
  define rest where "rest = fst ?L @ runEnd (snd ?L)"
  have eff': "fst (handleFolderUpload env cancel files)
      = [SetIsProcessing True, SetProcessingStatus ScanningFiles,
         SetStats \<lparr>totalFiles = length files, processed = 0, failed = 0\<rparr>, SetErrorLogs []] @ rest"
    by (simp add: eff rest_def)
  have nores: "\<forall>x \<in> set rest. \<not> resets x"
    using loop_no_resets[of _ env cancel files 0 "[]"] by (simp add: rest_def)
  have cT: "count_list rest (UpdateStats True)
      = length (filter (\<lambda>f. fileResult env f \<noteq> None) (take c files))"
    by (simp add: rest_def cnt quiet count_True_file sum_list_indicator)
  have "count_list rest (UpdateStats False)
      = length (filter (\<lambda>f. (settles env f \<and> fileResult env f = None) \<or> rejects env f)
          (take c files))"
    by (simp add: rest_def cnt quiet count_False_file sum_list_indicator)
  also have "\<dots> = length (filter (\<lambda>f. fileResult env f = None) (take c files))"
    using all_settle settles_not_rejects
    by (intro arg_cong[where f=length] filter_cong) auto
  finally have cF: "count_list rest (UpdateStats False)
      = length (filter (\<lambda>f. fileResult env f = None) (take c files))" .
  have tot: "length (filter (\<lambda>f. fileResult env f \<noteq> None) (take c files))
      + length (filter (\<lambda>f. fileResult env f = None) (take c files)) = c"
    using length_filter_compl[of "\<lambda>f. fileResult env f \<noteq> None" "take c files"] c_le
    by simp
  show "stats st' = \<lparr>totalFiles = length files, processed = c,
                        failed = length (filter (\<lambda>f. fileResult env f = None) (take c files))\<rparr>"
    using tot by (simp add: st'_def eff' stats_runEffects[OF nores] cT cF)
  show "logMessage n m \<in> set (errorLogs st')"
    if "f \<in> set (take c files)" "LogError n m \<in> set (fileEffects env f)"
  proof -
    from that(2) have "0 < count_list (fileEffects env f) (LogError n m)"
      by (simp add: count_list_pos_iff)
    with that(1) have "0 < sum_list (map (\<lambda>f. count_list (fileEffects env f) (LogError n m)) (take c files))"
      by (rule sum_list_pos)
    then have "LogError n m \<in> set (fst ?L)"
      using cnt[of "LogError n m"] count_list_pos_iff[of "fst ?L" "LogError n m"] by simp
    then have "LogError n m \<in> set rest" by (simp add: rest_def)
    then have "logMessage n m \<in> set (loggedErrors rest)"
      by (induction rest) (auto simp: loggedErrors_def map_filter_simps split: effect.splits)
    then show ?thesis
      by (simp add: st'_def eff' errorLogs_runEffects[OF nores])
  qed
  show "\<not> isProcessing st'"
    using e by (simp add: st'_def eff)
  show "processingStatus st'
           = (if c = length files then ProcessedCount c (length files) else ProcessingCancelled)"
    using e sne sl by (simp add: st'_def eff processingStatus_runEffects)
qed

section \<open>The abort signal\<close>

lemma concat_noEvents [simp]: "concat (map noEvents gs) = []"
  by (induction gs) (simp_all add: noEvents_def)

lemma aborted_noEvents [simp]: "\<not> aborted noEvents j"
  by (simp add: aborted_def controllerAt_def)

lemma concat_cancelDuring:
  "concat (map (cancelDuring g) [0..<k]) = (if g < k then [CancelClicked] else [])"
  by (induction k) (auto simp: cancelDuring_def)

lemma aborted_cancelDuring: "aborted (cancelDuring g) i \<longleftrightarrow> g < i div batchSize"
  by (simp add: aborted_def controllerAt_def concat_cancelDuring)

lemma name_survivors:
  "map name (survivors env files) = map file_name (filter (\<lambda>f. fileResult env f \<noteq> None) files)"
proof (induction files)
  case (Cons f files)
  show ?case
  proof (cases rule: settle_processFile_cases[of env f])
    case (yields t c)
    with Cons show ?thesis
      by (simp add: survivors_def map_filter_simps fileResult_def processedFile_def Let_def)
  qed (use Cons in \<open>simp_all add: survivors_def map_filter_simps fileResult_def\<close>)
qed simp

section \<open>The loop of the variant with a time limit\<close>

lemma survivors_part001_append [simp]:
  "survivors_part001 env (a @ b) = survivors_part001 env a @ survivors_part001 env b"
  by (simp add: survivors_part001_def map_filter_def)

lemma survivors_part001_Nil [simp]: "survivors_part001 env [] = []"
  by (simp add: survivors_part001_def map_filter_simps)

lemma map_filter_map: "List.map_filter g (map h xs) = List.map_filter (\<lambda>x. g (h x)) xs"
  by (induction xs) (simp_all add: map_filter_simps split: option.splits)

lemma guarded_le: "fst (guarded env f) \<le> 30000"
  by (auto simp: guarded_def processFileWithTimeout_def split: option.splits prod.splits sum.splits if_splits)

lemma fold_max_le: "\<forall>x \<in> set xs. x \<le> b \<Longrightarrow> a \<le> b \<Longrightarrow> fold max xs a \<le> (b::nat)"
  by (induction xs arbitrary: a) auto

lemma groups_step: "i < n \<Longrightarrow> (n - i + 4) div 5 = Suc ((n - (i + 5) + 4) div 5)" for i n :: nat
proof (cases "i + 5 \<le> n")
  case True
  define x where "x = n - (i + 5) + 4"
  from True have "n - i + 4 = x + 5" by (simp add: x_def)
  moreover have "(x + 5) div 5 = Suc (x div 5)" by simp
  ultimately show ?thesis by (simp only: x_def)
next
  case False
  assume "i < n"
  with False have "n - i + 4 < 10" "5 \<le> n - i + 4" "n - (i + 5) + 4 = 4" by simp_all
  then show ?thesis by (simp add: div_nat_eqI)
qed

lemma part001_loop:
  "snd (handleFolderUpload_part001_loop env cancel files i now acc)
     = acc @ survivors_part001 env (drop i files)
   \<and> fst (handleFolderUpload_part001_loop env cancel files i now acc)
     \<le> now + 30000 * ((length files - i + 4) div batchSize)"
proof (induction "length files - i" arbitrary: i now acc rule: less_induct)
  case less
  show ?case
  proof (cases "i < length files")
    case False
    then show ?thesis by (subst (1 2) handleFolderUpload_part001_loop.simps) simp
  next
    case True
    let ?batch = "slice_files files i (i + batchSize)"
    let ?results = "map (guarded env) ?batch"
    let ?resolved = "now + fold max (map fst ?results) 0"
    let ?acc = "acc @ List.map_filter snd ?results"
    have meas: "length files - (i + batchSize) < length files - i"
      using True by (simp add: batchSize_def)
    note IH = less.hyps[OF meas, of ?resolved ?acc]
    have unfold: "handleFolderUpload_part001_loop env cancel files i now acc
        = handleFolderUpload_part001_loop env cancel files (i + batchSize) ?resolved ?acc"
      using True by (subst handleFolderUpload_part001_loop.simps) (simp add: Let_def)
    have acc: "List.map_filter snd ?results = survivors_part001 env ?batch"
      by (simp add: survivors_part001_def map_filter_map)
    have "drop i files = ?batch @ drop (i + batchSize) files"
      by (simp only: slice_batch drop_batch append_take_drop_id)
    then have G1: "?acc @ survivors_part001 env (drop (i + batchSize) files)
        = acc @ survivors_part001 env (drop i files)"
      by (simp add: acc)
    have le: "fold max (map fst ?results) 0 \<le> 30000"
      by (rule fold_max_le) (auto simp: guarded_le)
    have eq: "(length files - i + 4) div batchSize
        = Suc ((length files - (i + batchSize) + 4) div batchSize)"
      using True by (simp only: batchSize_def groups_step)
    have G2: "?resolved + 30000 * ((length files - (i + batchSize) + 4) div batchSize)
        \<le> now + 30000 * ((length files - i + 4) div batchSize)"
      unfolding eq using le by simp
    from IH G1 G2 show ?thesis unfolding unfold by simp
  qed
qed

section \<open>The order of the processed files\<close>

lemma run_completed:
  fixes st :: AppState
  assumes "files \<noteq> []" and "\<forall>f \<in> set files. settles env f"
    and "\<forall>j < length files. batchSize dvd j \<longrightarrow> \<not> aborted cancel j"
  shows "snd (handleFolderUpload env cancel files) = Completed"
    and "processedFiles (runEffects st (fst (handleFolderUpload env cancel files))) = survivors env files"
    and "stats (runEffects st (fst (handleFolderUpload env cancel files)))
          = \<lparr>totalFiles = length files, processed = length files,
             failed = length (filter (\<lambda>f. fileResult env f = None) files)\<rparr>"
    and "consoleLog (runEffects st (fst (handleFolderUpload env cancel files)))
          = consoleLog st @ map startLine files"
    and "f \<in> set files \<Longrightarrow> LogError n m \<in> set (fileEffects env f) \<Longrightarrow>
          logMessage n m \<in> set (errorLogs (runEffects st (fst (handleFolderUpload env cancel files))))"
proof -
  have stop: "\<forall>j < length files. batchSize dvd j \<longrightarrow> (aborted cancel j \<longleftrightarrow> length files \<le> j)"
    using assms(3) by auto
  have settle: "\<forall>f \<in> set (take (length files) files). settles env f"
    using assms(2) by simp
  note sc = run_scenario[OF assms(1) le_refl settle stop disjI2[OF refl]]
  show "snd (handleFolderUpload env cancel files) = Completed" using sc(1) by simp
  show "processedFiles (runEffects st (fst (handleFolderUpload env cancel files))) = survivors env files"
    using sc(2) by simp
  show "stats (runEffects st (fst (handleFolderUpload env cancel files)))
          = \<lparr>totalFiles = length files, processed = length files,
             failed = length (filter (\<lambda>f. fileResult env f = None) files)\<rparr>"
    using sc(3,4) by simp
  show "consoleLog (runEffects st (fst (handleFolderUpload env cancel files)))
          = consoleLog st @ map startLine files"
    using sc(3) by simp
  show "logMessage n m \<in> set (errorLogs (runEffects st (fst (handleFolderUpload env cancel files))))"
    if "f \<in> set files" "LogError n m \<in> set (fileEffects env f)"
    using sc(5)[of f n m] that by simp
qed

lemma name_survivors_part001:
  "map name (survivors_part001 env files)
     = map file_name (filter (\<lambda>f. snd (guarded env f) \<noteq> None) files)"
proof (induction files)
  case (Cons f files)
  have "snd (guarded env f) = None \<or> (\<exists>c. snd (guarded env f) = Some (processedFile_part001 env f c))"
    by (auto simp: guarded_def processFileWithTimeout_def processFile_part001_def
        split: option.splits prod.splits sum.splits if_splits completion.splits settled.splits)
  with Cons show ?case
    by (auto simp: survivors_part001_def map_filter_simps processedFile_part001_def Let_def)
qed simp

text \<open>
  C1. When every call of \<open>processFile\<close> settles with a value (none stays pending, none
  is rejected) and no test of the abort signal finds it set, the run returns, and
  \<open>processedFiles\<close> then holds the values of the calls that are not \<open>null\<close>, in the order
  of the input files: the entries are those of the input files that did not fail, in
  input order, whatever the order in which the calls of a group settle and however the
  files fall into groups. The same holds for the loop of the variant with a time limit,
  which never reads the signal and where a call that is out of time counts as failed.
\<close>

theorem order_preserved:
  assumes "files \<noteq> []"
    and "\<forall>f \<in> set files. settles env f"
    and "\<forall>j < length files. batchSize dvd j \<longrightarrow> \<not> aborted cancel j"
  shows "snd (handleFolderUpload env cancel files) = Completed
     \<and> processedFiles (runEffects st (fst (handleFolderUpload env cancel files)))
         = List.map_filter (fileResult env) files
     \<and> map name (processedFiles (runEffects st (fst (handleFolderUpload env cancel files))))
         = map file_name (filter (\<lambda>f. fileResult env f \<noteq> None) files)
     \<and> snd (handleFolderUpload_part001 env cancel files previous)
         = List.map_filter (\<lambda>f. snd (guarded env f)) files
     \<and> map name (snd (handleFolderUpload_part001 env cancel files previous))
         = map file_name (filter (\<lambda>f. snd (guarded env f) \<noteq> None) files)"
proof -
  have p: "snd (handleFolderUpload_part001 env cancel files previous) = survivors_part001 env files"
    using assms(1) part001_loop[of env cancel files 0 0 "[]"]
    by (simp add: handleFolderUpload_part001_def)
  show ?thesis
    using run_completed(1,2)[OF assms] p
    by (simp add: name_survivors name_survivors_part001)
       (simp add: survivors_def survivors_part001_def)
qed

section \<open>The example inputs\<close>

lemma classify_textFile [simp]: "classify (textFile n) = TextBranch"
  by (simp add: classify_def textFile_def startsWith_def lit_def)

lemma settle_textFile:
  "settle (processFile exampleEnv (textFile n)) =
     afterAwait exampleEnv (textFile n) (extraction exampleEnv FileText (textFile n))"
  by (simp add: processFile_def Let_def)

lemma extraction_example:
  "extraction exampleEnv l (textFile n) =
     (if lit n = lit ''B.txt'' then After 7 (Throws (lit ''unreadable''))
      else if lit n = lit ''stuck.txt'' then Never
      else After 10 (Text (lit ''hello'')))"
  by (simp add: exampleEnv_def textFile_def)

lemma file_name_textFile [simp]: "file_name (textFile n) = lit n"
  by (simp add: textFile_def)

lemma fileResult_example:
  "lit n \<noteq> lit ''stuck.txt'' \<Longrightarrow>
   fileResult exampleEnv (textFile n) =
     (if lit n = lit ''B.txt'' then None else Some (processedFile exampleEnv (textFile n) (lit ''hello'')))"
  "lit n \<noteq> lit ''stuck.txt'' \<Longrightarrow> settles exampleEnv (textFile n)"
  by (simp_all add: fileResult_def settles_def settle_textFile afterAwait_def extraction_example)

lemma lit_neq [simp]:
  "lit ''A.txt'' \<noteq> lit ''B.txt''" "lit ''C.txt'' \<noteq> lit ''B.txt''" "lit ''D.txt'' \<noteq> lit ''B.txt''"
  "lit ''E.txt'' \<noteq> lit ''B.txt''" "lit ''F.txt'' \<noteq> lit ''B.txt''"
  "lit ''A.txt'' \<noteq> lit ''stuck.txt''" "lit ''B.txt'' \<noteq> lit ''stuck.txt''" "lit ''C.txt'' \<noteq> lit ''stuck.txt''" "lit ''D.txt'' \<noteq> lit ''stuck.txt''"
  "lit ''E.txt'' \<noteq> lit ''stuck.txt''" "lit ''F.txt'' \<noteq> lit ''stuck.txt''"
  by (simp_all add: lit_def)

text \<open>
  The example of the specification: of the files A to F, B fails; the result is A, C,
  D, E, F.
\<close>

theorem order_preserved_witness:
  "snd (handleFolderUpload exampleEnv noEvents sixFiles) = Completed
   \<and> map name (processedFiles (runEffects initialState (fst (handleFolderUpload exampleEnv noEvents sixFiles))))
       = map lit [''A.txt'', ''C.txt'', ''D.txt'', ''E.txt'', ''F.txt'']
   \<and> map name (snd (handleFolderUpload_part001 exampleEnv noEvents sixFiles []))
       = map lit [''A.txt'', ''C.txt'', ''D.txt'', ''E.txt'', ''F.txt'']"
proof -
  have h1: "sixFiles \<noteq> []" by (simp add: sixFiles_def)
  have h2: "\<forall>f \<in> set sixFiles. settles exampleEnv f"
    by (simp add: sixFiles_def fileResult_example)
  have h3: "\<forall>j < length sixFiles. batchSize dvd j \<longrightarrow> \<not> aborted noEvents j"
    by simp
  have g: "snd (guarded exampleEnv (textFile n)) =
     (if lit n = lit ''B.txt'' then None else Some (processedFile_part001 exampleEnv (textFile n) (lit ''hello'')))"
    if "lit n \<noteq> lit ''stuck.txt''" for n
  proof -
    have "routeByType (file_type (textFile n)) = Some FileText"
      by (simp add: routeByType_def textFile_def startsWith_def lit_def)
    moreover have "\<not> timerFirst exampleEnv (textFile n)" by (simp add: exampleEnv_def)
    ultimately show ?thesis
      using that
      by (simp add: guarded_def processFileWithTimeout_def processFile_part001_def
          extraction_example)
  qed
  show ?thesis
    using order_preserved[OF h1 h2 h3, of initialState "[]"]
    by (simp add: sixFiles_def fileResult_example g map_filter_simps processedFile_def
        processedFile_part001_def Let_def)
qed

section \<open>A plain-text file\<close>

lemma processFile_text:
  assumes "startsWith (file_type f) (lit ''text/'')"
    and "extraction env FileText f = After t (Text txt)"
  shows "settle (processFile env f)
           = Some (t, [UpdateStats True], Inr (Some (processedFile env f txt)))"
  using assms by (simp add: processFile_def classify_def afterAwait_def Let_def)

lemma no_abort_in_first_group:
  "length files \<le> batchSize \<Longrightarrow> \<forall>j < length files. batchSize dvd j \<longrightarrow> \<not> aborted cancel j"
proof (intro allI impI)
  fix j assume "length files \<le> batchSize" "j < length files" "batchSize dvd j"
  then have "j = 0" by (auto elim!: dvdE simp: batchSize_def)
  then show "\<not> aborted cancel j" by simp
qed

text \<open>
  C9 (as the code has it). A file whose declared type is \<open>text/*\<close> and that the browser reads as \<open>txt\<close>
  becomes one processed file: its content is the header (path, name, date, size)
  followed by \<open>txt\<close>, and the conversion with trimming and removal of empty lines off
  and line ending LF leaves that content as it is. The encoding option is not read.
\<close>

theorem plain_text_round_trip:
  assumes "startsWith (file_type f) (lit ''text/'')"
    and "extraction env FileText f = After t (Text txt)"
    and "\<not> trimWhitespace opts" and "\<not> removeEmptyLines opts"
    and "lineEnding opts = lit ''LF''"
  shows "snd (handleFolderUpload env cancel [f]) = Completed
     \<and> processedFiles (runEffects st (fst (handleFolderUpload env cancel [f])))
         = [processedFile env f txt]
     \<and> normalize_text opts (content (processedFile env f txt))
         = lit ''File Information:'' @ [LF]
           @ lit ''Path: '' @ orElse (file_webkitRelativePath f) (file_name f) @ [LF]
           @ lit ''Name: '' @ file_name f @ [LF]
           @ lit ''Date: '' @ (if file_lastModified f = 0 then lit ''N/A''
                              else toLocaleString env (file_lastModified f)) @ [LF]
           @ lit ''Size: '' @ decimal (file_size f) @ lit '' bytes'' @ [LF, LF]
           @ lit ''Content:'' @ [LF]
           @ txt"
proof -
  note s = processFile_text[OF assms(1,2)]
  have h1: "[f] \<noteq> []" by simp
  have h2: "\<forall>x \<in> set [f]. settles env x" using s by (simp add: settles_def)
  have h3: "\<forall>j < length [f]. batchSize dvd j \<longrightarrow> \<not> aborted cancel j"
    by (rule no_abort_in_first_group) (simp add: batchSize_def)
  have "survivors env [f] = [processedFile env f txt]"
    using s by (simp add: survivors_def map_filter_simps fileResult_def)
  moreover have "lit ''LF'' \<noteq> lit ''CRLF''" "lit ''LF'' \<noteq> lit ''CR''"
    by (simp_all add: lit_def)
  ultimately show ?thesis
    using run_completed(1,2)[OF h1 h2 h3] assms(3,4,5)
    by (simp add: normalize_text_def processedFile_def Let_def)
qed

theorem plain_text_round_trip_witness:
  "processedFiles (runEffects initialState (fst (handleFolderUpload exampleEnv noEvents [textFile ''A.txt''])))
     = [processedFile exampleEnv (textFile ''A.txt'') (lit ''hello'')]
   \<and> normalize_text defaultOptions (content (processedFile exampleEnv (textFile ''A.txt'') (lit ''hello'')))
     = lit ''File Information:'' @ [LF] @ lit ''Path: A.txt'' @ [LF] @ lit ''Name: A.txt'' @ [LF]
       @ lit ''Date: N/A'' @ [LF] @ lit ''Size: 10 bytes'' @ [LF, LF] @ lit ''Content:'' @ [LF]
       @ lit ''hello''"
proof -
  have a: "startsWith (file_type (textFile ''A.txt'')) (lit ''text/'')"
    by (simp add: textFile_def startsWith_def lit_def)
  have b: "extraction exampleEnv FileText (textFile ''A.txt'') = After 10 (Text (lit ''hello''))"
    by (simp add: extraction_example)
  have d: "decimal 10 = lit ''10''"
    by (simp add: decimal.simps[of 10] decimal.simps[of "Suc 0"] lit_def)
  show ?thesis
    using plain_text_round_trip[OF a b, of defaultOptions noEvents initialState]
    by (simp add: defaultOptions_def textFile_def orElse_def d lit_def)
qed

section \<open>An unsupported file\<close>

lemma classify_unsupported:
  assumes "\<not> startsWith (file_type f) (lit ''text/'')"
    and "\<not> startsWith (file_type f) (lit ''image/'')"
    and "file_type f \<noteq> lit ''application/pdf''"
    and "routeByExtension (extensionOf (file_name f)) = None"
  shows "classify f = UnsupportedBranch"
  using assms office_list_iff[of "extensionOf (file_name f)"]
  by (auto simp: classify_def routeByExtension_def Let_def split: if_splits)

lemma processFile_unsupported:
  assumes "classify f = UnsupportedBranch"
  shows "processFile env f =
     \<lparr>sync = [ConsoleLog (startLine f), UpdateStats False,
              LogError (file_name f) (lit ''Unsupported file type'')],
      settle = Some (0, [], Inr None)\<rparr>"
  using assms by (simp add: processFile_def startLine_def Let_def)

text \<open>
  A file whose declared type is none of \<open>text/*\<close>, \<open>image/*\<close>, \<open>application/pdf\<close> and whose
  extension is none of those the program knows is refused on the spot: the call counts
  one more processed and one more failed file, never a success, appends one line to
  the error log and returns \<open>null\<close>. A run over a list that holds such a file returns
  as soon as the calls for the other files have settled with a value: the processed
  files are those of the other files, every file is counted, and the log holds the
  line of the refused file.
\<close>

lemma unsupported_format:
  assumes "\<not> startsWith (file_type f) (lit ''text/'')"
    and "\<not> startsWith (file_type f) (lit ''image/'')"
    and "file_type f \<noteq> lit ''application/pdf''"
    and "routeByExtension (extensionOf (file_name f)) = None"
    and "\<forall>x \<in> set (pre @ post). settles env x"
    and "\<forall>j < length (pre @ f # post). batchSize dvd j \<longrightarrow> \<not> aborted cancel j"
  shows "processFile env f =
           \<lparr>sync = [ConsoleLog (startLine f), UpdateStats False,
                    LogError (file_name f) (lit ''Unsupported file type'')],
            settle = Some (0, [], Inr None)\<rparr>
     \<and> stats (runEffects st (sync (processFile env f)))
         = \<lparr>totalFiles = totalFiles (stats st), processed = processed (stats st) + 1,
            failed = failed (stats st) + 1\<rparr>
     \<and> errorLogs (runEffects st (sync (processFile env f)))
         = errorLogs st @ [logMessage (file_name f) (lit ''Unsupported file type'')]
     \<and> count_list (fileEffects env f) (UpdateStats True) = 0
     \<and> snd (handleFolderUpload env cancel (pre @ f # post)) = Completed
     \<and> processedFiles (runEffects st (fst (handleFolderUpload env cancel (pre @ f # post))))
         = List.map_filter (fileResult env) (pre @ post)
     \<and> stats (runEffects st (fst (handleFolderUpload env cancel (pre @ f # post))))
         = \<lparr>totalFiles = length (pre @ f # post), processed = length (pre @ f # post),
            failed = Suc (length (filter (\<lambda>x. fileResult env x = None) (pre @ post)))\<rparr>
     \<and> logMessage (file_name f) (lit ''Unsupported file type'')
         \<in> set (errorLogs (runEffects st (fst (handleFolderUpload env cancel (pre @ f # post)))))"
proof -
  note u = classify_unsupported[OF assms(1-4)]
  note p = processFile_unsupported[OF u, of env]
  have r: "fileResult env f = None" and s: "settles env f"
    by (simp_all add: fileResult_def settles_def p)
  have h1: "pre @ f # post \<noteq> []" by simp
  have h2: "\<forall>x \<in> set (pre @ f # post). settles env x" using assms(5) s by auto
  have l: "LogError (file_name f) (lit ''Unsupported file type'') \<in> set (fileEffects env f)"
    by (simp add: fileEffects_def p)
  note run = run_completed[OF h1 h2 assms(6)]
  have "survivors env (pre @ f # post) = List.map_filter (fileResult env) (pre @ post)"
    using r by (simp add: survivors_def map_filter_def)
  moreover have "length (filter (\<lambda>x. fileResult env x = None) (pre @ f # post))
      = Suc (length (filter (\<lambda>x. fileResult env x = None) (pre @ post)))"
    using r by simp
  moreover have "count_list (fileEffects env f) (UpdateStats True) = 0"
    by (simp add: fileEffects_def p continuation_def)
  ultimately show ?thesis
    using run(1) run(2)[of st] run(3)[of st] run(5)[OF _ l, of st] p
    by (simp add: updateStats_def logError_def)
qed

section \<open>A plain-text file with no declared type\<close>

text \<open>
  The claim as stated fails: a.txt, for which the browser declares no media type, is a
  plain-text file, but \<open>processFile\<close> knows text by the declared type alone and has no
  branch for the extension \<open>txt\<close>. The file is refused as unsupported and no processed
  file is produced.
\<close>

theorem plain_text_without_type:
  "classify a_txt = UnsupportedBranch
   \<and> fileResult exampleEnv a_txt = None
   \<and> snd (handleFolderUpload exampleEnv noEvents [a_txt]) = Completed
   \<and> processedFiles (runEffects initialState (fst (handleFolderUpload exampleEnv noEvents [a_txt]))) = []
   \<and> stats (runEffects initialState (fst (handleFolderUpload exampleEnv noEvents [a_txt])))
       = \<lparr>totalFiles = 1, processed = 1, failed = 1\<rparr>"
proof -
  have e: "extensionOf (file_name a_txt) = Some (lit ''txt'')"
    by (simp add: a_txt_def extensionOf_def toLowerCase_def lit_def DOT_def)
  have u: "classify a_txt = UnsupportedBranch"
    by (simp add: classify_def e Let_def extensionOr_def orElse_def)
       (simp add: a_txt_def startsWith_def lit_def)
  note p = processFile_unsupported[OF u, of exampleEnv]
  have r: "fileResult exampleEnv a_txt = None" and s: "settles exampleEnv a_txt"
    by (simp_all add: fileResult_def settles_def p)
  have h1: "[a_txt] \<noteq> []" by simp
  have h2: "\<forall>x \<in> set [a_txt]. settles exampleEnv x" using s by simp
  have h3: "\<forall>j < length [a_txt]. batchSize dvd j \<longrightarrow> \<not> aborted noEvents j"
    by simp
  note run = run_completed[OF h1 h2 h3]
  show ?thesis
    using u r run(1) run(2)[of initialState] run(3)[of initialState]
    by (simp add: survivors_def map_filter_simps)
qed

section \<open>A call that is rejected\<close>

lemma processFile_nullEnv:
  "processFile nullEnv (textFile n) =
     \<lparr>sync = [ConsoleLog (startLine (textFile n))],
      settle = (if lit n = lit ''C.txt'' then Some (3, [UpdateStats False], Inl TypeError)
                else if lit n = lit ''B.txt''
                  then Some (7, [UpdateStats False, LogError (lit n) (lit ''unreadable'')], Inr None)
                else if lit n = lit ''stuck.txt'' then None
                else Some (10, [UpdateStats True],
                        Inr (Some (processedFile nullEnv (textFile n) (lit ''hello'')))))\<rparr>"
  by (simp add: processFile_def Let_def startLine_def afterAwait_def nullEnv_def
      extraction_example)

lemma lit_neq_C [simp]:
  "lit ''A.txt'' \<noteq> lit ''C.txt''" "lit ''B.txt'' \<noteq> lit ''C.txt''" "lit ''D.txt'' \<noteq> lit ''C.txt''"
  "lit ''E.txt'' \<noteq> lit ''C.txt''" "lit ''F.txt'' \<noteq> lit ''C.txt''"
  by (simp_all add: lit_def)

lemma runBatch_nullEnv:
  "runBatch nullEnv [textFile ''A.txt'', textFile ''B.txt'', textFile ''C.txt'', textFile ''D.txt'',
          textFile ''E.txt''] 0 6
     = (batchCalls nullEnv [textFile ''A.txt'', textFile ''B.txt'', textFile ''C.txt'', textFile ''D.txt'',
          textFile ''E.txt''] 0 6
          @ [UpdateStats False],
        Rejected TypeError
          [UpdateStats False, LogError (lit ''B.txt'') (lit ''unreadable''),
           UpdateStats True, UpdateStats True, UpdateStats True])"
  by (simp add: runBatch_def Let_def map_filter_simps processFile_nullEnv)

lemma sixFiles_first_group:
  "slice_files sixFiles 0 batchSize
     = [textFile ''A.txt'', textFile ''B.txt'', textFile ''C.txt'', textFile ''D.txt'',
        textFile ''E.txt'']"
  by (simp add: slice_files_def sixFiles_def batchSize_def)

lemma batchCalls_textFiles:
  "batchCalls nullEnv [textFile ''A.txt'', textFile ''B.txt'', textFile ''C.txt'', textFile ''D.txt'',
          textFile ''E.txt''] 0 6
     = [SetProcessingStatus (ProcessingFile (lit ''A.txt'') 1 6), ConsoleLog (startLine (textFile ''A.txt'')),
        SetProcessingStatus (ProcessingFile (lit ''B.txt'') 1 6), ConsoleLog (startLine (textFile ''B.txt'')),
        SetProcessingStatus (ProcessingFile (lit ''C.txt'') 1 6), ConsoleLog (startLine (textFile ''C.txt'')),
        SetProcessingStatus (ProcessingFile (lit ''D.txt'') 1 6), ConsoleLog (startLine (textFile ''D.txt'')),
        SetProcessingStatus (ProcessingFile (lit ''E.txt'') 1 6), ConsoleLog (startLine (textFile ''E.txt''))]"
  by (simp add: batchCalls_def processFile_nullEnv)

lemma run_nullEnv:
  "handleFolderUpload nullEnv noEvents sixFiles
     = ([SetIsProcessing True, SetProcessingStatus ScanningFiles,
         SetStats \<lparr>totalFiles = 6, processed = 0, failed = 0\<rparr>, SetErrorLogs []]
        @ batchCalls nullEnv [textFile ''A.txt'', textFile ''B.txt'', textFile ''C.txt'', textFile ''D.txt'',
          textFile ''E.txt''] 0 6
        @ [UpdateStats False, SetProcessingStatus ErrorProcessingFiles, SetIsProcessing False,
           UpdateStats False, LogError (lit ''B.txt'') (lit ''unreadable''),
           UpdateStats True, UpdateStats True, UpdateStats True],
        Failed TypeError
          [UpdateStats False, LogError (lit ''B.txt'') (lit ''unreadable''),
           UpdateStats True, UpdateStats True, UpdateStats True])"
proof -
  have n: "sixFiles \<noteq> []" "length sixFiles = 6" by (simp_all add: sixFiles_def)
  have "handleFolderUpload_loop nullEnv noEvents sixFiles 0 []
     = (batchCalls nullEnv [textFile ''A.txt'', textFile ''B.txt'', textFile ''C.txt'', textFile ''D.txt'',
          textFile ''E.txt''] 0 6
          @ [UpdateStats False],
        Failed TypeError
          [UpdateStats False, LogError (lit ''B.txt'') (lit ''unreadable''),
           UpdateStats True, UpdateStats True, UpdateStats True])"
    by (subst handleFolderUpload_loop.simps)
       (simp add: n sixFiles_first_group runBatch_nullEnv Let_def)
  then show ?thesis using n by (simp add: handleFolderUpload_def)
qed

text \<open>
  C8 (where the code departs from it). Six text files in src/App.tsx, of which
  reading C.txt is rejected with \<open>null\<close>: the \<open>catch\<close> block of \<open>processFile\<close> counts the
  failure and then throws in \<open>logError\<close>, \<open>Promise.all\<close> is rejected, and the run is over
  with the status \<open>Error processing files\<close>. F.txt, in the second group, is never
  started; \<open>processedFiles\<close> is never set, so the files A, D and E, which were read, are
  lost with it; nothing is logged for C.txt.
\<close>

theorem null_rejection_ends_run:
  "snd (handleFolderUpload nullEnv noEvents sixFiles)
     = Failed TypeError
         [UpdateStats False, LogError (lit ''B.txt'') (lit ''unreadable''),
          UpdateStats True, UpdateStats True, UpdateStats True]
   \<and> processingStatus (runEffects initialState (fst (handleFolderUpload nullEnv noEvents sixFiles)))
       = ErrorProcessingFiles
   \<and> \<not> isProcessing (runEffects initialState (fst (handleFolderUpload nullEnv noEvents sixFiles)))
   \<and> consoleLog (runEffects initialState (fst (handleFolderUpload nullEnv noEvents sixFiles)))
       = map startLine (map textFile [''A.txt'', ''B.txt'', ''C.txt'', ''D.txt'', ''E.txt''])
   \<and> processedFiles (runEffects initialState (fst (handleFolderUpload nullEnv noEvents sixFiles)))
       = []
   \<and> stats (runEffects initialState (fst (handleFolderUpload nullEnv noEvents sixFiles)))
       = \<lparr>totalFiles = 6, processed = 5, failed = 2\<rparr>
   \<and> errorLogs (runEffects initialState (fst (handleFolderUpload nullEnv noEvents sixFiles)))
       = [logMessage (lit ''B.txt'') (lit ''unreadable'')]"
  by (simp add: run_nullEnv batchCalls_textFiles initialState_def updateStats_def logError_def)

section \<open>Runs of the variant with a time limit\<close>

lemma part001_run:
  assumes "files \<noteq> []"
  shows "snd (handleFolderUpload_part001 env cancel files previous) = survivors_part001 env files"
    and "fst (handleFolderUpload_part001 env cancel files previous)
           \<le> 30000 * ((length files + 4) div batchSize)"
  using assms part001_loop[of env cancel files 0 0 "[]"]
  by (simp_all add: handleFolderUpload_part001_def)

lemma guarded_textFile:
  "guarded exampleEnv (textFile n) =
     (if lit n = lit ''B.txt'' then (7, None)
      else if lit n = lit ''stuck.txt'' then (30000, None)
      else (10, Some (processedFile_part001 exampleEnv (textFile n) (lit ''hello''))))"
  by (simp add: guarded_def processFileWithTimeout_def processFile_part001_def routeByType_def
      textFile_def exampleEnv_def startsWith_def lit_def)

lemma lit_neq_stuck [simp]: "lit ''stuck.txt'' \<noteq> lit ''B.txt''"
  by (simp add: lit_def)

lemma name_part001 [simp]: "name (processedFile_part001 env f c) = file_name f"
  by (simp add: processedFile_part001_def Let_def)

section \<open>Cancellation\<close>

lemma aborted_cancelDuring_iff:
  "aborted (cancelDuring g) j \<longleftrightarrow> (g + 1) * batchSize \<le> j"
  unfolding aborted_cancelDuring batchSize_def by presburger

text \<open>
  In src/App.tsx, when nothing else happens to the controller: let \<open>handleCancel\<close> run
  while group \<open>g\<close> is awaited, and let every call of that group and of the groups before
  it settle with a value. No call of \<open>processFile\<close> is made for a file of a later group:
  the console holds the start lines of the files of the groups 0 to \<open>g\<close> and no other.
  \<open>processedFiles\<close> holds the processed files of those groups, in order. If a group is
  left to start, the test at the top of the loop ends the run with the status
  \<open>Processing cancelled\<close>; if group \<open>g\<close> was the last one, nothing tests the signal any
  more and the run ends as a run that was never cancelled.
\<close>

lemma cancellation_between_groups:
  assumes "files \<noteq> []"
    and "\<forall>f \<in> set (take ((g + 1) * batchSize) files). settles env f"
  shows "snd (handleFolderUpload env (cancelDuring g) files)
           = (if (g + 1) * batchSize < length files then CancelledRun else Completed)
     \<and> consoleLog (runEffects st (fst (handleFolderUpload env (cancelDuring g) files)))
         = consoleLog st @ map startLine (take ((g + 1) * batchSize) files)
     \<and> processedFiles (runEffects st (fst (handleFolderUpload env (cancelDuring g) files)))
         = List.map_filter (fileResult env) (take ((g + 1) * batchSize) files)
     \<and> processed (stats (runEffects st (fst (handleFolderUpload env (cancelDuring g) files))))
         = min ((g + 1) * batchSize) (length files)
     \<and> processingStatus (runEffects st (fst (handleFolderUpload env (cancelDuring g) files)))
         = (if (g + 1) * batchSize < length files then ProcessingCancelled
            else ProcessedCount (length files) (length files))
     \<and> \<not> isProcessing (runEffects st (fst (handleFolderUpload env (cancelDuring g) files)))"
proof -
  define c where "c = min ((g + 1) * batchSize) (length files)"
  have c_le: "c \<le> length files" by (simp add: c_def)
  have tk: "take c files = take ((g + 1) * batchSize) files"
    by (simp add: c_def min_def)
  have settle: "\<forall>f \<in> set (take c files). settles env f"
    using assms(2) by (simp only: tk)
  have stop: "\<forall>j < length files. batchSize dvd j \<longrightarrow> (aborted (cancelDuring g) j \<longleftrightarrow> c \<le> j)"
    by (auto simp: aborted_cancelDuring_iff c_def)
  have shape: "batchSize dvd c \<or> c = length files"
    by (auto simp: c_def min_def)
  have cn: "c = length files \<longleftrightarrow> \<not> (g + 1) * batchSize < length files"
    by (auto simp: c_def)
  note sc = run_scenario[OF assms(1) c_le settle stop shape]
  show ?thesis
    using sc(1) sc(2)[of st] sc(3)[of st] sc(4)[of st] sc(6)[of st] sc(7)[of st]
    by (simp add: cn tk survivors_def c_def)
qed

text \<open>
  The shared reference undoes the cancellation: when the user, having clicked Cancel
  during the first group, selects other files before that group is over, the new call
  of \<open>handleFolderUpload\<close> replaces the aborted controller, the test before the second
  group reads the new one, and the cancelled run goes on to its end.
\<close>

lemma concat_cancelThenUpload:
  "concat (map cancelThenUpload [0..<k]) = (if 0 < k then [CancelClicked, UploadStarted] else [])"
  by (induction k) (auto simp: cancelThenUpload_def)

lemma second_upload_revives_run:
  "controllerAt cancelThenUpload 1 = Some False
   \<and> snd (handleFolderUpload exampleEnv cancelThenUpload sixFiles) = Completed
   \<and> consoleLog (runEffects initialState (fst (handleFolderUpload exampleEnv cancelThenUpload sixFiles)))
       = map startLine sixFiles"
proof -
  have a: "\<not> aborted cancelThenUpload j" for j
    by (simp add: aborted_def controllerAt_def concat_cancelThenUpload)
  have h1: "sixFiles \<noteq> []" by (simp add: sixFiles_def)
  have h2: "\<forall>f \<in> set sixFiles. settles exampleEnv f"
    by (simp add: sixFiles_def fileResult_example)
  have h3: "\<forall>j < length sixFiles. batchSize dvd j \<longrightarrow> \<not> aborted cancelThenUpload j"
    using a by simp
  note run = run_completed[OF h1 h2 h3]
  have "controllerAt cancelThenUpload 1 = Some False"
    by (simp add: controllerAt_def cancelThenUpload_def)
  with run(1) run(4)[of initialState] show ?thesis by (simp add: initialState_def)
qed

text \<open>
  C4 (where the code departs from it). Six text files in src/unnamed/part_001, in two
  groups; the user clicks Cancel while the first group is awaited. The controller is
  aborted when the second group is due, but the loop never reads the signal: the run
  goes on, F.txt is extracted and processed, and the run ends after the second group
  as any other.
\<close>

theorem cancel_ignored_part001:
  "controllerAt (cancelDuring 0) 1 = Some True
   \<and> map name (snd (handleFolderUpload_part001 exampleEnv (cancelDuring 0) sixFiles []))
       = map lit [''A.txt'', ''C.txt'', ''D.txt'', ''E.txt'', ''F.txt'']
   \<and> fst (handleFolderUpload_part001 exampleEnv (cancelDuring 0) sixFiles []) = 20"
proof -
  have c: "controllerAt (cancelDuring 0) 1 = Some True"
    by (simp add: controllerAt_def cancelDuring_def)
  have h1: "sixFiles \<noteq> []" by (simp add: sixFiles_def)
  have n: "map name (survivors_part001 exampleEnv sixFiles)
       = map lit [''A.txt'', ''C.txt'', ''D.txt'', ''E.txt'', ''F.txt'']"
    by (simp add: sixFiles_def survivors_part001_def map_filter_simps guarded_textFile)
  have t: "fst (handleFolderUpload_part001 exampleEnv (cancelDuring 0) sixFiles []) = 20"
    apply (simp add: handleFolderUpload_part001_def sixFiles_def)
    apply (subst handleFolderUpload_part001_loop.simps)
    apply (simp add: slice_files_def batchSize_def Let_def guarded_textFile)
    apply (subst handleFolderUpload_part001_loop.simps)
    apply (simp add: slice_files_def batchSize_def Let_def guarded_textFile)
    apply (subst handleFolderUpload_part001_loop.simps)
    apply (simp add: slice_files_def batchSize_def Let_def guarded_textFile)
    done
  from c n t part001_run(1)[OF h1, of exampleEnv "cancelDuring 0" "[]"] show ?thesis by simp
qed

section \<open>The counters during a run\<close>

lemma stats_runEffects_counts:
  "\<forall>e \<in> set effs. \<forall>s. e \<noteq> SetStats s \<Longrightarrow>
   stats (runEffects st effs) =
     \<lparr>totalFiles = totalFiles (stats st),
      processed = processed (stats st) + count_list effs (UpdateStats True)
                    + count_list effs (UpdateStats False),
      failed = failed (stats st) + count_list effs (UpdateStats False)\<rparr>"
proof (induction effs arbitrary: st)
  case (Cons e effs)
  then show ?case by (cases e) (simp_all add: updateStats_def)
qed simp

lemma count_list_take_le: "count_list (take j xs) x \<le> count_list xs x"
proof -
  have "count_list xs x = count_list (take j xs) x + count_list (drop j xs) x"
    by (metis append_take_drop_id count_list_append)
  then show ?thesis by simp
qed

lemma rejects_fileResult: "rejects env f \<Longrightarrow> fileResult env f = None"
  by (auto simp: rejects_def fileResult_def split: option.splits sum.splits)

lemma updates_per_file:
  "count_list (fileEffects env f) (UpdateStats True) + count_list (fileEffects env f) (UpdateStats False) \<le> 1"
  using rejects_fileResult[of env f] by (auto simp: count_True_file count_False_file)

lemma sum_list_le_length:
  "(\<And>x. h x \<le> (1::nat)) \<Longrightarrow> sum_list (map h xs) \<le> length xs"
proof (induction xs)
  case (Cons a xs)
  have "h a \<le> 1" by (rule Cons.prems)
  moreover have "sum_list (map h xs) \<le> length xs" by (rule Cons.IH) (rule Cons.prems)
  ultimately show ?case by simp
qed simp

lemma loop_updates_le:
  "count_list (fst (handleFolderUpload_loop env cancel files 0 acc)
                 @ runEnd (snd (handleFolderUpload_loop env cancel files 0 acc))) (UpdateStats True)
     + count_list (fst (handleFolderUpload_loop env cancel files 0 acc)
                 @ runEnd (snd (handleFolderUpload_loop env cancel files 0 acc))) (UpdateStats False)
   \<le> length files"
proof -
  let ?L = "fst (handleFolderUpload_loop env cancel files 0 acc)
              @ runEnd (snd (handleFolderUpload_loop env cancel files 0 acc))"
  have "count_list ?L (UpdateStats True) + count_list ?L (UpdateStats False)
      \<le> sum_list (map (\<lambda>f. count_list (fileEffects env f) (UpdateStats True)) files)
        + sum_list (map (\<lambda>f. count_list (fileEffects env f) (UpdateStats False)) files)"
    using loop_count_le[of "UpdateStats True" env cancel files 0 acc]
          loop_count_le[of "UpdateStats False" env cancel files 0 acc]
    by simp
  also have "\<dots> = sum_list (map (\<lambda>f. count_list (fileEffects env f) (UpdateStats True)
                                  + count_list (fileEffects env f) (UpdateStats False)) files)"
    by (simp add: sum_list_addf)
  also have "\<dots> \<le> length files"
    by (rule sum_list_le_length) (rule updates_per_file)
  finally show ?thesis .
qed

text \<open>
  The calls of a run after the first three (\<open>setIsProcessing\<close>, \<open>setProcessingStatus\<close>
  and the \<open>setStats\<close> that resets the counters).
\<close>

lemma run_after_reset:
  assumes "files \<noteq> []"
  obtains rest where
    "fst (handleFolderUpload env cancel files)
       = [SetIsProcessing True, SetProcessingStatus ScanningFiles,
          SetStats \<lparr>totalFiles = length files, processed = 0, failed = 0\<rparr>] @ rest"
    and "\<forall>e \<in> set rest. \<forall>s. e \<noteq> SetStats s"
    and "count_list rest (UpdateStats True) + count_list rest (UpdateStats False) \<le> length files"
proof -
  let ?L = "handleFolderUpload_loop env cancel files 0 []"
  define rest where "rest = SetErrorLogs [] # fst ?L @ runEnd (snd ?L)"
  have a: "fst (handleFolderUpload env cancel files)
       = [SetIsProcessing True, SetProcessingStatus ScanningFiles,
          SetStats \<lparr>totalFiles = length files, processed = 0, failed = 0\<rparr>] @ rest"
    by (simp add: handleFolderUpload_effects[OF assms] rest_def)
  have "\<forall>e \<in> set (fst ?L @ runEnd (snd ?L)). \<not> resets e"
    using loop_no_resets[of _ env cancel files 0 "[]"] by blast
  then have "\<forall>e \<in> set (fst ?L @ runEnd (snd ?L)). \<forall>s. e \<noteq> SetStats s"
    by (metis resets.simps(1))
  then have b: "\<forall>e \<in> set rest. \<forall>s. e \<noteq> SetStats s"
    by (simp add: rest_def)
  have c: "count_list rest (UpdateStats True) + count_list rest (UpdateStats False) \<le> length files"
    using loop_updates_le[of env cancel files "[]"] by (simp add: rest_def)
  from a b c show ?thesis by (rule that)
qed

lemma stats_step:
  "processed (stats st) \<le> processed (stats (applyEffect e st))
   \<and> failed (stats st) \<le> failed (stats (applyEffect e st))
   \<and> totalFiles (stats (applyEffect e st)) = totalFiles (stats st)"
  if "\<forall>s. e \<noteq> SetStats s"
  using that by (cases e) (simp_all add: updateStats_def)

text \<open>
  C6 (as the code has it). Take the calls of one run alone, from the reset of the
  counters on (the third call of \<open>handleFolderUpload\<close>), whatever the environment and
  whatever happens to the abort signal: at every moment \<open>processed\<close> is the number of
  calls \<open>updateStats(true)\<close> so far plus \<open>failed\<close>, \<open>failed\<close> is the number of calls
  \<open>updateStats(false)\<close> so far, \<open>processed\<close> is at most \<open>total\<close>, \<open>total\<close> is the number of
  files, and the next call leaves \<open>total\<close> as it is and makes neither \<open>processed\<close> nor
  \<open>failed\<close> smaller. This covers a run that is cancelled, one that never resumes and
  one that ends on a rejection, with the calls that follow it.
\<close>

theorem progress_invariant:
  assumes "files \<noteq> []"
    and "3 \<le> k"
    and "k \<le> length (fst (handleFolderUpload env cancel files))"
  shows "processed (statsAt st (fst (handleFolderUpload env cancel files)) k)
           = count_list (take k (fst (handleFolderUpload env cancel files))) (UpdateStats True)
             + failed (statsAt st (fst (handleFolderUpload env cancel files)) k)
     \<and> failed (statsAt st (fst (handleFolderUpload env cancel files)) k)
           = count_list (take k (fst (handleFolderUpload env cancel files))) (UpdateStats False)
     \<and> processed (statsAt st (fst (handleFolderUpload env cancel files)) k)
           \<le> totalFiles (statsAt st (fst (handleFolderUpload env cancel files)) k)
     \<and> totalFiles (statsAt st (fst (handleFolderUpload env cancel files)) k) = length files
     \<and> (k < length (fst (handleFolderUpload env cancel files)) \<longrightarrow>
           processed (statsAt st (fst (handleFolderUpload env cancel files)) k)
             \<le> processed (statsAt st (fst (handleFolderUpload env cancel files)) (Suc k))
           \<and> failed (statsAt st (fst (handleFolderUpload env cancel files)) k)
             \<le> failed (statsAt st (fst (handleFolderUpload env cancel files)) (Suc k))
           \<and> totalFiles (statsAt st (fst (handleFolderUpload env cancel files)) (Suc k))
             = totalFiles (statsAt st (fst (handleFolderUpload env cancel files)) k))"
proof -
  let ?effs = "fst (handleFolderUpload env cancel files)"
  let ?init = "[SetIsProcessing True, SetProcessingStatus ScanningFiles,
          SetStats \<lparr>totalFiles = length files, processed = 0, failed = 0\<rparr>]"
  obtain rest where effs: "?effs = ?init @ rest"
    and nos: "\<forall>e \<in> set rest. \<forall>s. e \<noteq> SetStats s"
    and bound: "count_list rest (UpdateStats True) + count_list rest (UpdateStats False) \<le> length files"
    by (rule run_after_reset[OF assms(1)])
  define j where "j = k - 3"
  have k: "k = Suc (Suc (Suc j))"
    using assms(2) by (simp add: j_def)
  have tk: "take k ?effs = ?init @ take j rest"
    unfolding effs k by simp
  have nos': "\<forall>e \<in> set (take j rest). \<forall>s. e \<noteq> SetStats s"
    using nos by (meson in_set_takeD)
  have st: "statsAt st ?effs k =
      \<lparr>totalFiles = length files,
       processed = count_list (take j rest) (UpdateStats True) + count_list (take j rest) (UpdateStats False),
       failed = count_list (take j rest) (UpdateStats False)\<rparr>"
    unfolding statsAt_def tk by (simp add: stats_runEffects_counts[OF nos'])
  have cnt: "count_list (take k ?effs) (UpdateStats b) = count_list (take j rest) (UpdateStats b)" for b
    unfolding tk by simp
  have le: "count_list (take j rest) (UpdateStats True) + count_list (take j rest) (UpdateStats False)
      \<le> length files"
    using bound count_list_take_le[of j rest "UpdateStats True"]
      count_list_take_le[of j rest "UpdateStats False"] by linarith
  have mono: "processed (statsAt st ?effs k) \<le> processed (statsAt st ?effs (Suc k))
           \<and> failed (statsAt st ?effs k) \<le> failed (statsAt st ?effs (Suc k))
           \<and> totalFiles (statsAt st ?effs (Suc k)) = totalFiles (statsAt st ?effs k)"
    if "k < length ?effs"
  proof -
    have "?effs ! k \<in> set rest"
      using that unfolding effs k by simp
    with nos have "\<forall>s. ?effs ! k \<noteq> SetStats s" by blast
    moreover have "take (Suc k) ?effs = take k ?effs @ [?effs ! k]"
      using that by (rule take_Suc_conv_app_nth)
    ultimately show ?thesis
      using stats_step[of "?effs ! k" "runEffects st (take k ?effs)"]
      by (simp add: statsAt_def)
  qed
  show ?thesis
    using mono le by (simp add: st cnt)
qed

section \<open>The run over three files\<close>

lemma processFile_exampleEnv:
  "processFile exampleEnv (textFile n) =
     \<lparr>sync = [ConsoleLog (startLine (textFile n))],
      settle = (if lit n = lit ''B.txt''
                  then Some (7, [UpdateStats False, LogError (lit n) (lit ''unreadable'')], Inr None)
                else if lit n = lit ''stuck.txt'' then None
                else Some (10, [UpdateStats True],
                        Inr (Some (processedFile exampleEnv (textFile n) (lit ''hello'')))))\<rparr>"
  by (simp add: processFile_def Let_def startLine_def afterAwait_def extraction_example)

lemma run_threeFiles:
  "fst (handleFolderUpload exampleEnv cancel threeFiles)
     = [SetIsProcessing True, SetProcessingStatus ScanningFiles,
        SetStats \<lparr>totalFiles = 3, processed = 0, failed = 0\<rparr>, SetErrorLogs [],
        SetProcessingStatus (ProcessingFile (lit ''A.txt'') 1 3), ConsoleLog (startLine (textFile ''A.txt'')),
        SetProcessingStatus (ProcessingFile (lit ''B.txt'') 1 3), ConsoleLog (startLine (textFile ''B.txt'')),
        SetProcessingStatus (ProcessingFile (lit ''C.txt'') 1 3), ConsoleLog (startLine (textFile ''C.txt'')),
        UpdateStats False, LogError (lit ''B.txt'') (lit ''unreadable''),
        UpdateStats True, UpdateStats True,
        SetProcessedFiles (survivors exampleEnv threeFiles),
        SetProcessingStatus (ProcessedCount 3 3),
        SetInputText (combinedText (survivors exampleEnv threeFiles)),
        SetIsProcessing False]"
proof -
  have n: "threeFiles \<noteq> []" "length threeFiles = 3" by (simp_all add: threeFiles_def)
  have s: "slice_files threeFiles 0 (0 + batchSize) = threeFiles"
    by (simp add: slice_files_def threeFiles_def batchSize_def)
  have a: "\<forall>f \<in> set (slice_files threeFiles 0 (0 + batchSize)). settles exampleEnv f"
    unfolding s by (simp add: threeFiles_def fileResult_example)
  have r: "fst (runBatch exampleEnv threeFiles 0 3)
      = [SetProcessingStatus (ProcessingFile (lit ''A.txt'') 1 3), ConsoleLog (startLine (textFile ''A.txt'')),
         SetProcessingStatus (ProcessingFile (lit ''B.txt'') 1 3), ConsoleLog (startLine (textFile ''B.txt'')),
         SetProcessingStatus (ProcessingFile (lit ''C.txt'') 1 3), ConsoleLog (startLine (textFile ''C.txt'')),
         UpdateStats False, LogError (lit ''B.txt'') (lit ''unreadable''),
         UpdateStats True, UpdateStats True]"
    using a unfolding s
    by (simp add: runBatch_resolved)
       (simp add: threeFiles_def batchCalls_def batchContinuations_def map_filter_simps
          processFile_exampleEnv)
  have "handleFolderUpload_loop exampleEnv cancel threeFiles 0 []
      = (fst (runBatch exampleEnv threeFiles 0 3)
           @ [SetProcessedFiles (survivors exampleEnv threeFiles),
              SetProcessingStatus (ProcessedCount 3 3),
              SetInputText (combinedText (survivors exampleEnv threeFiles))],
         Completed)"
    using loop_step[OF _ aborted_0 a, of cancel "[]"] s
    by (simp add: n loop_done batchSize_def)
  then show ?thesis using n by (simp add: handleFolderUpload_def r)
qed

text \<open>
  Three text files in one group, the second of which cannot be read: after thirteen
  calls one file has failed and one has succeeded, and the fourteenth call counts the
  third file.
\<close>

theorem progress_invariant_witness:
  "threeFiles \<noteq> [] \<and> (3::nat) \<le> 13
   \<and> 13 \<le> length (fst (handleFolderUpload exampleEnv noEvents threeFiles))
   \<and> statsAt initialState (fst (handleFolderUpload exampleEnv noEvents threeFiles)) 13
       = \<lparr>totalFiles = 3, processed = 2, failed = 1\<rparr>
   \<and> statsAt initialState (fst (handleFolderUpload exampleEnv noEvents threeFiles)) 14
       = \<lparr>totalFiles = 3, processed = 3, failed = 1\<rparr>
   \<and> count_list (take 13 (fst (handleFolderUpload exampleEnv noEvents threeFiles))) (UpdateStats True) = 1
   \<and> count_list (take 13 (fst (handleFolderUpload exampleEnv noEvents threeFiles))) (UpdateStats False) = 1"
proof -
  have h1: "threeFiles \<noteq> []" by (simp add: threeFiles_def)
  have h2: "(3::nat) \<le> 13" by simp
  have h3: "13 \<le> length (fst (handleFolderUpload exampleEnv noEvents threeFiles))"
    by (simp add: run_threeFiles)
  have v: "statsAt initialState (fst (handleFolderUpload exampleEnv noEvents threeFiles)) 14
       = \<lparr>totalFiles = 3, processed = 3, failed = 1\<rparr>"
    by (simp add: run_threeFiles statsAt_def initialState_def updateStats_def)
  have c: "count_list (take 13 (fst (handleFolderUpload exampleEnv noEvents threeFiles))) (UpdateStats True) = 1"
    "count_list (take 13 (fst (handleFolderUpload exampleEnv noEvents threeFiles))) (UpdateStats False) = 1"
    by (simp_all add: run_threeFiles)
  have l: "length threeFiles = 3" by (simp add: threeFiles_def)
  from progress_invariant[OF h1 h2 h3, of initialState] h1 h3 v c l
  show ?thesis by (cases "statsAt initialState (fst (handleFolderUpload exampleEnv noEvents threeFiles)) 13") simp
qed

text \<open>
  The claim as stated fails, because the counters are shared by all runs. While the
  three files are being read the user selects notes.xyz; that call resets the
  counters to a total of 1, refuses the file and is over at once. The three calls of
  the first run then settle and count themselves: \<open>total\<close> of the first run has
  changed under it, and \<open>processed\<close> ends at 4 of 1.
\<close>

lemma run_notes:
  "fst (handleFolderUpload exampleEnv cancel [notes_xyz])
     = [SetIsProcessing True, SetProcessingStatus ScanningFiles,
        SetStats \<lparr>totalFiles = 1, processed = 0, failed = 0\<rparr>, SetErrorLogs [],
        SetProcessingStatus (ProcessingFile (file_name notes_xyz) 1 1),
        ConsoleLog (startLine notes_xyz),
        UpdateStats False, LogError (file_name notes_xyz) (lit ''Unsupported file type''),
        SetProcessedFiles [], SetProcessingStatus (ProcessedCount 1 1),
        SetInputText (combinedText []), SetIsProcessing False]"
proof -
  have a: "\<not> startsWith (file_type notes_xyz) (lit ''text/'')"
          "\<not> startsWith (file_type notes_xyz) (lit ''image/'')"
          "file_type notes_xyz \<noteq> lit ''application/pdf''"
    by (simp_all add: notes_xyz_def startsWith_def lit_def)
  have e: "extensionOf (file_name notes_xyz) = Some (lit ''xyz'')"
    by (simp add: notes_xyz_def extensionOf_def toLowerCase_def lit_def DOT_def)
  have b: "routeByExtension (extensionOf (file_name notes_xyz)) = None"
    by (simp add: e routeByExtension_def officeLibrary_def lit_def)
  note p = processFile_unsupported[OF classify_unsupported[OF a b], of exampleEnv]
  have s: "slice_files [notes_xyz] 0 (0 + batchSize) = [notes_xyz]"
    by (simp add: slice_files_def batchSize_def)
  have st: "\<forall>f \<in> set (slice_files [notes_xyz] 0 (0 + batchSize)). settles exampleEnv f"
    unfolding s by (simp add: settles_def p)
  have r: "fst (runBatch exampleEnv [notes_xyz] 0 1)
      = [SetProcessingStatus (ProcessingFile (file_name notes_xyz) 1 1),
         ConsoleLog (startLine notes_xyz),
         UpdateStats False, LogError (file_name notes_xyz) (lit ''Unsupported file type'')]"
    using st unfolding s
    by (simp add: runBatch_resolved)
       (simp add: batchCalls_def batchContinuations_def map_filter_simps p)
  have v: "survivors exampleEnv [notes_xyz] = []"
    by (simp add: survivors_def map_filter_simps fileResult_def p)
  have "handleFolderUpload_loop exampleEnv cancel [notes_xyz] 0 []
      = (fst (runBatch exampleEnv [notes_xyz] 0 1)
           @ [SetProcessedFiles [], SetProcessingStatus (ProcessedCount 1 1),
              SetInputText (combinedText [])],
         Completed)"
    using loop_step[OF _ aborted_0 st, of cancel "[]"] s
    by (simp add: loop_done batchSize_def v)
  then show ?thesis using r by (simp add: handleFolderUpload_def)
qed

theorem progress_broken_by_overlap:
  "statsAt initialState
     (overlapped (fst (handleFolderUpload exampleEnv otherUpload threeFiles)) 10
        (fst (handleFolderUpload exampleEnv noEvents [notes_xyz]))) 10
     = \<lparr>totalFiles = 3, processed = 0, failed = 0\<rparr>
   \<and> statsAt initialState
     (overlapped (fst (handleFolderUpload exampleEnv otherUpload threeFiles)) 10
        (fst (handleFolderUpload exampleEnv noEvents [notes_xyz]))) 13
     = \<lparr>totalFiles = 1, processed = 0, failed = 0\<rparr>
   \<and> statsAt initialState
     (overlapped (fst (handleFolderUpload exampleEnv otherUpload threeFiles)) 10
        (fst (handleFolderUpload exampleEnv noEvents [notes_xyz]))) 26
     = \<lparr>totalFiles = 1, processed = 4, failed = 2\<rparr>
   \<and> \<not> processed (statsAt initialState
     (overlapped (fst (handleFolderUpload exampleEnv otherUpload threeFiles)) 10
        (fst (handleFolderUpload exampleEnv noEvents [notes_xyz]))) 26)
     \<le> totalFiles (statsAt initialState
     (overlapped (fst (handleFolderUpload exampleEnv otherUpload threeFiles)) 10
        (fst (handleFolderUpload exampleEnv noEvents [notes_xyz]))) 26)"
  by (simp add: overlapped_def run_threeFiles run_notes statsAt_def initialState_def
      updateStats_def)

section \<open>The time limit\<close>








end
